theory Spec2Isabelle
  imports Complex_Main
begin

section \<open>Action coordination: \<open>utils/rate_limiter.py\<close>\<close>

subsection \<open>The event-loop lock used by \<open>GlobalActionLock\<close>\<close>

text \<open>
  \<open>asyncio.Lock\<close> as the class uses it. The coordinator runs on one cooperative event
  loop: \<open>await lock.acquire()\<close> on a free lock with no waiters sets the flag and returns
  without yielding, and \<open>lock.release()\<close> raises \<open>RuntimeError\<close> on a lock that is not
  held. Acquiring a held lock would suspend the caller; that outcome is kept as a fault
  so that every path of the model says what the library call does.
\<close>

datatype fault = RuntimeError | WouldSuspend

record alock =
  locked :: bool

definition lock_acquire :: "alock \<Rightarrow> fault + alock" where
  "lock_acquire l = (if locked l then Inl WouldSuspend else Inr (l\<lparr>locked := True\<rparr>))"

definition lock_release :: "alock \<Rightarrow> fault + alock" where
  "lock_release l = (if locked l then Inr (l\<lparr>locked := False\<rparr>) else Inl RuntimeError)"

subsection \<open>\<open>GlobalActionLock\<close>\<close>

text \<open>
  The private attributes \<open>_lock\<close>, \<open>_last_action_time\<close> and \<open>_current_action\<close> are
  the fields \<open>g_lock\<close>, \<open>g_last_action_time\<close> and \<open>g_current_action\<close>.
  The clock \<open>time.time()\<close> is read as a real number of seconds; every reading the code
  takes is an argument of the model, in the order the code takes it.
\<close>

record global_action_lock =
  cooldown_sec :: real
  g_lock :: alock
  g_last_action_time :: real
  g_current_action :: "string option"

definition GlobalActionLock :: "real \<Rightarrow> global_action_lock" where
  "GlobalActionLock cooldown =
     \<lparr>cooldown_sec = cooldown, g_lock = \<lparr>locked = False\<rparr>,
      g_last_action_time = 0, g_current_action = None\<rparr>"

definition acquire ::
  "global_action_lock \<Rightarrow> string \<Rightarrow> real \<Rightarrow> real \<Rightarrow>
     fault + ((bool \<times> string option) \<times> global_action_lock)" where
  "acquire g action now1 now2 =
     (if locked (g_lock g) then Inr ((False, g_current_action g), g)
      else
        (case lock_acquire (g_lock g) of
           Inl e \<Rightarrow> Inl e
         | Inr l1 \<Rightarrow>
             (let g1 = g\<lparr>g_lock := l1\<rparr>;
                  elapsed = now1 - g_last_action_time g1
              in if elapsed < cooldown_sec g1
                 then (case lock_release (g_lock g1) of
                         Inl e \<Rightarrow> Inl e
                       | Inr l2 \<Rightarrow> Inr ((False, Some ''cooldown''), g1\<lparr>g_lock := l2\<rparr>))
                 else Inr ((True, None),
                           g1\<lparr>g_current_action := Some action, g_last_action_time := now2\<rparr>))))"

definition release :: "global_action_lock \<Rightarrow> fault + global_action_lock" where
  "release g =
     (let g1 = g\<lparr>g_current_action := None\<rparr>
      in if locked (g_lock g1)
         then (case lock_release (g_lock g1) of
                 Inl e \<Rightarrow> Inl e
               | Inr l \<Rightarrow> Inr (g1\<lparr>g_lock := l\<rparr>))
         else Inr g1)"

definition get_remaining_cooldown :: "global_action_lock \<Rightarrow> real \<Rightarrow> real" where
  "get_remaining_cooldown g now =
     (let elapsed = now - g_last_action_time g
      in max 0 (cooldown_sec g - elapsed))"

text \<open>
  A finite run of calls on one coordinator. Each \<open>Acquire\<close> carries the action kind and
  the two clock readings its body takes; the run records, call by call, whether the call
  was a grant.
\<close>

datatype call = Acquire string real real | Release

definition do_call :: "global_action_lock \<Rightarrow> call \<Rightarrow> fault + (bool \<times> global_action_lock)" where
  "do_call g c =
     (case c of
        Acquire action now1 now2 \<Rightarrow>
          (case acquire g action now1 now2 of
             Inl e \<Rightarrow> Inl e
           | Inr ((granted, _), g') \<Rightarrow> Inr (granted, g'))
      | Release \<Rightarrow>
          (case release g of
             Inl e \<Rightarrow> Inl e
           | Inr g' \<Rightarrow> Inr (False, g')))"

fun run_calls :: "global_action_lock \<Rightarrow> call list \<Rightarrow> fault + (bool list \<times> global_action_lock)" where
  "run_calls g [] = Inr ([], g)"
| "run_calls g (c # cs) =
     (case do_call g c of
        Inl e \<Rightarrow> Inl e
      | Inr (b, g') \<Rightarrow>
          (case run_calls g' cs of
             Inl e \<Rightarrow> Inl e
           | Inr (bs, g'') \<Rightarrow> Inr (b # bs, g'')))"

text \<open>
  Grants outstanding after a run: a grant adds one, a release ends one, a denied
  acquire changes nothing.
\<close>

fun outstanding :: "nat \<Rightarrow> (call \<times> bool) list \<Rightarrow> nat" where
  "outstanding n [] = n"
| "outstanding n ((Release, _) # rest) = outstanding (n - 1) rest"
| "outstanding n ((Acquire _ _ _, granted) # rest) =
     outstanding (if granted then Suc n else n) rest"

text \<open>
  The kind of the grant outstanding after a run: a grant makes its kind the holder, a
  release leaves no holder, a denied acquire changes nothing.
\<close>

fun holder_after :: "string option \<Rightarrow> (call \<times> bool) list \<Rightarrow> string option" where
  "holder_after h [] = h"
| "holder_after h ((Release, _) # rest) = holder_after None rest"
| "holder_after h ((Acquire action _ _, granted) # rest) =
     holder_after (if granted then Some action else h) rest"

section \<open>Persistent state: \<open>utils/state.py\<close>\<close>

record BotState =
  dashboard_message_id :: "int option"
  logs_enabled :: bool
  current_thread_id :: "int option"
  current_date :: "string option"
  last_action_time :: "string option"
  last_action_user :: "string option"
  last_action_type :: "string option"

definition BotState_default :: BotState where
  "BotState_default =
     \<lparr>dashboard_message_id = None, logs_enabled = False, current_thread_id = None,
      current_date = None, last_action_time = None, last_action_user = None,
      last_action_type = None\<rparr>"

text \<open>
  What \<open>load\<close> can find at \<open>state_file\<close>: no file, a file that \<open>json.load\<close> or the
  \<open>BotState\<close> constructor rejects, or a file holding the fields of a state. \<open>save\<close>
  writes the fields of \<open>_state\<close> (the field \<open>m_state\<close>); the write itself is taken to
  succeed.
\<close>

datatype stored = Missing | Malformed | Stored BotState

record state_manager =
  state_file :: stored
  m_state :: "BotState option"

definition load :: "state_manager \<Rightarrow> BotState \<times> state_manager" where
  "load m =
     (case state_file m of
        Stored st \<Rightarrow> (st, m\<lparr>m_state := Some st\<rparr>)
      | Malformed \<Rightarrow> (BotState_default, m\<lparr>m_state := Some BotState_default\<rparr>)
      | Missing \<Rightarrow> (BotState_default, m\<lparr>m_state := Some BotState_default\<rparr>))"

definition save :: "state_manager \<Rightarrow> state_manager" where
  "save m =
     (case m_state m of
        None \<Rightarrow> m
      | Some st \<Rightarrow> m\<lparr>state_file := Stored st\<rparr>)"

definition state :: "state_manager \<Rightarrow> BotState \<times> state_manager" where
  "state m =
     (case m_state m of
        None \<Rightarrow> load m
      | Some st \<Rightarrow> (st, m))"

definition update_logs ::
  "state_manager \<Rightarrow> bool \<Rightarrow> int option \<Rightarrow> string option \<Rightarrow> state_manager" where
  "update_logs m enabled thread_id date =
     (case state m of
        (st, m1) \<Rightarrow>
          (let st1 = st\<lparr>logs_enabled := enabled\<rparr>;
               st2 = (case thread_id of None \<Rightarrow> st1 | Some t \<Rightarrow> st1\<lparr>current_thread_id := Some t\<rparr>);
               st3 = (case date of None \<Rightarrow> st2 | Some d \<Rightarrow> st2\<lparr>current_date := Some d\<rparr>)
           in save (m1\<lparr>m_state := Some st3\<rparr>)))"

section \<open>Log pipeline: \<open>services/log_sync.py\<close>\<close>

subsection \<open>\<open>_split_message\<close>\<close>

text \<open>
  Text is a list of characters and \<open>len\<close> its length. \<open>split_lines\<close> is
  \<open>text.split("\\n")\<close> and \<open>join_lines\<close> is \<open>"\\n".join(lines)\<close>.
\<close>

definition newline :: char where
  "newline = CHR 0x0A"

fun split_lines :: "string \<Rightarrow> string list" where
  "split_lines [] = [[]]"
| "split_lines (c # cs) =
     (if c = newline then [] # split_lines cs
      else (case split_lines cs of
              [] \<Rightarrow> [[c]]
            | l # ls \<Rightarrow> (c # l) # ls))"

fun join_lines :: "string list \<Rightarrow> string" where
  "join_lines [] = []"
| "join_lines [l] = l"
| "join_lines (l # l' # ls) = l @ newline # join_lines (l' # ls)"

text \<open>One turn of the \<open>for line in lines\<close> loop, on the pair \<open>(chunks, current_chunk)\<close>.\<close>

definition split_step :: "int \<Rightarrow> string list \<times> string \<Rightarrow> string \<Rightarrow> string list \<times> string" where
  "split_step max_len st line =
     (case st of
        (chunks, current_chunk) \<Rightarrow>
          if int (length current_chunk) + int (length line) + 1 > max_len
          then (if current_chunk \<noteq> [] then chunks @ [current_chunk] else chunks, line)
          else (chunks, if current_chunk \<noteq> [] then current_chunk @ newline # line else line))"

text \<open>The lines after the loop: the last chunk is kept when it is not empty.\<close>

definition split_finish :: "string list \<times> string \<Rightarrow> string list" where
  "split_finish st =
     (case st of
        (chunks, current_chunk) \<Rightarrow>
          if current_chunk \<noteq> [] then chunks @ [current_chunk] else chunks)"

definition split_message :: "int \<Rightarrow> string \<Rightarrow> string list" where
  "split_message max_chars_per_post text =
     (let max_len = max_chars_per_post - 10
      in if int (length text) \<le> max_len then (if text \<noteq> [] then [text] else [])
         else split_finish (foldl (split_step max_len) ([], []) (split_lines text)))"

text \<open>
  Vocabulary for the properties of the splitter: the non-empty lines a list of chunks
  holds, the first line of a chunk, and the test the loop makes before it starts a new
  chunk, read on two neighbouring chunks.
\<close>

definition lines_of :: "string list \<Rightarrow> string list" where
  "lines_of chunks = filter (\<lambda>l. l \<noteq> []) (concat (map split_lines chunks))"

definition first_line :: "string \<Rightarrow> string" where
  "first_line chunk = takeWhile (\<lambda>c. c \<noteq> newline) chunk"

definition overflows :: "int \<Rightarrow> string \<Rightarrow> string \<Rightarrow> bool" where
  "overflows max_len chunk next_chunk =
     (int (length chunk) + int (length (first_line next_chunk)) + 1 > max_len)"

subsection \<open>Python lists in memory\<close>

text \<open>
  \<open>_log_buffer\<close> is a mutable list that \<open>_add_to_buffer\<close> and \<open>_flush_buffer\<close> both
  reach through the same attribute, and \<open>_flush_buffer\<close> keeps a second list in its local
  \<open>logs\<close>. Lists therefore live in a store, addressed by references.
\<close>

type_synonym ref = nat

record store =
  cells :: "ref \<Rightarrow> string list"
  next_ref :: ref

definition list_new :: "store \<Rightarrow> ref \<times> store" where
  "list_new h = (next_ref h, \<lparr>cells = (cells h)(next_ref h := []), next_ref = Suc (next_ref h)\<rparr>)"

definition list_append :: "ref \<Rightarrow> string \<Rightarrow> store \<Rightarrow> store" where
  "list_append r x h = h\<lparr>cells := (cells h)(r := cells h r @ [x])\<rparr>"

definition list_copy :: "ref \<Rightarrow> store \<Rightarrow> ref \<times> store" where
  "list_copy r h =
     (next_ref h, \<lparr>cells = (cells h)(next_ref h := cells h r), next_ref = Suc (next_ref h)\<rparr>)"

definition list_clear :: "ref \<Rightarrow> store \<Rightarrow> store" where
  "list_clear r h = h\<lparr>cells := (cells h)(r := [])\<rparr>"

subsection \<open>\<open>LogSyncService\<close>\<close>

text \<open>
  The attributes \<open>_running\<close>, \<open>_log_buffer\<close>, \<open>_buffer_lock\<close>, \<open>_current_thread\<close>,
  \<open>_current_date\<close> and \<open>_state\<close> are the fields below; a thread object is known by its
  id. \<open>max_chars_per_post\<close> is the one configuration value the modelled methods read.
\<close>

record log_sync_service =
  memory :: store
  max_chars_per_post :: int
  s_state :: state_manager
  s_running :: bool
  s_log_buffer :: ref
  s_buffer_lock :: alock
  s_current_thread :: "int option"
  s_current_date :: "string option"

definition LogSyncService :: "int \<Rightarrow> state_manager \<Rightarrow> log_sync_service" where
  "LogSyncService max_chars manager =
     (case list_new \<lparr>cells = (\<lambda>_. []), next_ref = 0\<rparr> of
        (r, h) \<Rightarrow>
          \<lparr>memory = h, max_chars_per_post = max_chars, s_state = manager, s_running = False,
           s_log_buffer = r, s_buffer_lock = \<lparr>locked = False\<rparr>,
           s_current_thread = None, s_current_date = None\<rparr>)"

text \<open>
  \<open>async with self._buffer_lock\<close>: take the lock, run the body, release the lock, also
  when the body returns early. No body below awaits, so a block is one step of the event
  loop.
\<close>

definition with_buffer_lock ::
  "(log_sync_service \<Rightarrow> 'a \<times> log_sync_service) \<Rightarrow> log_sync_service \<Rightarrow>
     fault + ('a \<times> log_sync_service)" where
  "with_buffer_lock body s =
     (case lock_acquire (s_buffer_lock s) of
        Inl e \<Rightarrow> Inl e
      | Inr l1 \<Rightarrow>
          (case body (s\<lparr>s_buffer_lock := l1\<rparr>) of
             (result, s1) \<Rightarrow>
               (case lock_release (s_buffer_lock s1) of
                  Inl e \<Rightarrow> Inl e
                | Inr l2 \<Rightarrow> Inr (result, s1\<lparr>s_buffer_lock := l2\<rparr>))))"

definition add_to_buffer :: "string \<Rightarrow> log_sync_service \<Rightarrow> fault + (unit \<times> log_sync_service)" where
  "add_to_buffer log_line =
     with_buffer_lock
       (\<lambda>s. ((), s\<lparr>memory := list_append (s_log_buffer s) log_line (memory s)\<rparr>))"

text \<open>
  The first block of \<open>_flush_buffer\<close>: \<open>None\<close> when the buffer is empty (the method
  returns), else the reference held by the local \<open>logs\<close>.
\<close>

definition drain :: "log_sync_service \<Rightarrow> fault + (ref option \<times> log_sync_service)" where
  "drain =
     with_buffer_lock
       (\<lambda>s. if cells (memory s) (s_log_buffer s) = [] then (None, s)
            else (case list_copy (s_log_buffer s) (memory s) of
                    (logs, h) \<Rightarrow>
                      (Some logs, s\<lparr>memory := list_clear (s_log_buffer s) h\<rparr>)))"

text \<open>
  The lines now in the buffer, and the condition that holds whenever the event loop is
  between two steps: the buffer lock is free and \<open>_log_buffer\<close> is an allocated list.
\<close>

definition buffered :: "log_sync_service \<Rightarrow> string list" where
  "buffered s = cells (memory s) (s_log_buffer s)"

definition between_steps :: "log_sync_service \<Rightarrow> bool" where
  "between_steps s = (\<not> locked (s_buffer_lock s) \<and> s_log_buffer s < next_ref (memory s))"

text \<open>
  What one flush meets outside the service: the date \<open>_get_current_date\<close> resolves, the
  id of the thread \<open>_create_daily_thread\<close> returns (\<open>None\<close> when it fails), and what each
  \<open>send\<close> of the loop answers, by position of the chunk.
\<close>

datatype send_result = Sent | Forbidden | RateLimited | HTTPError | OtherError

record flush_env =
  today :: string
  created :: "int option"
  send_outcome :: "nat \<Rightarrow> send_result"

text \<open>
  What the service does to the outside, in order: a thread creation for a date, a write
  of the state file, a \<open>send\<close> to a thread (answered or not), the wait before a retry.
\<close>

datatype event = CreateThread string | SaveState stored | Send int string | Wait

datatype exit = Returned | Raised

definition code_block :: "string \<Rightarrow> string" where
  "code_block chunk = ''```'' @ newline # chunk @ newline # ''```''"

definition and_then :: "event list \<Rightarrow> event list \<times> exit \<Rightarrow> event list \<times> exit" where
  "and_then es r = (es @ fst r, snd r)"

fun send_chunks :: "int \<Rightarrow> (nat \<Rightarrow> send_result) \<Rightarrow> nat \<Rightarrow> string list \<Rightarrow> event list \<times> exit" where
  "send_chunks thread outcome i [] = ([], Returned)"
| "send_chunks thread outcome i (chunk # rest) =
     (case outcome i of
        Sent \<Rightarrow>
          and_then [Send thread (code_block chunk)] (send_chunks thread outcome (Suc i) rest)
      | Forbidden \<Rightarrow> ([Send thread (code_block chunk)], Returned)
      | RateLimited \<Rightarrow>
          and_then [Send thread (code_block chunk), Wait, Send thread (code_block chunk)]
            (send_chunks thread outcome (Suc i) rest)
      | HTTPError \<Rightarrow>
          and_then [Send thread (code_block chunk)] (send_chunks thread outcome (Suc i) rest)
      | OtherError \<Rightarrow> ([Send thread (code_block chunk)], Raised))"

text \<open>\<open>_flush_buffer\<close> after the first block, with the drained lines in \<open>logs\<close>.\<close>

definition post_logs ::
  "log_sync_service \<Rightarrow> flush_env \<Rightarrow> int \<Rightarrow> string list \<Rightarrow> event list \<times> exit" where
  "post_logs s env thread logs =
     (let combined = join_lines logs;
          chunks = split_message (max_chars_per_post s) combined
      in send_chunks thread (send_outcome env) 0 chunks)"

definition send_phase ::
  "log_sync_service \<Rightarrow> flush_env \<Rightarrow> string list \<Rightarrow> event list \<times> exit \<times> log_sync_service" where
  "send_phase s env logs =
     (case s_current_thread s of
        None \<Rightarrow> ([], Returned, s)
      | Some thread \<Rightarrow>
          (let current_date = today env
           in if Some current_date \<noteq> s_current_date s
              then
                (let s1 = s\<lparr>s_current_date := Some current_date\<rparr>;
                     s2 = s1\<lparr>s_current_thread := created env\<rparr>
                 in case s_current_thread s2 of
                      None \<Rightarrow> ([CreateThread current_date], Returned, s2)
                    | Some new_thread \<Rightarrow>
                        (let m = update_logs (s_state s2) True (Some new_thread) (s_current_date s2);
                             s3 = s2\<lparr>s_state := m\<rparr>
                         in case post_logs s3 env new_thread logs of
                              (es, x) \<Rightarrow>
                                (CreateThread current_date # SaveState (state_file m) # es, x, s3)))
              else
                (case post_logs s env thread logs of
                   (es, x) \<Rightarrow> (es, x, s))))"

definition flush_buffer ::
  "log_sync_service \<Rightarrow> flush_env \<Rightarrow> fault + (event list \<times> exit \<times> log_sync_service)" where
  "flush_buffer s env =
     (case drain s of
        Inl e \<Rightarrow> Inl e
      | Inr (None, s1) \<Rightarrow> Inr ([], Returned, s1)
      | Inr (Some logs, s1) \<Rightarrow> Inr (send_phase s1 env (cells (memory s1) logs)))"

text \<open>
  \<open>stop\<close>: the flag, the last flush, and the state update. The flush task is already
  cancelled and the stream disconnect does not touch the service; an exception out of the
  flush leaves \<open>stop\<close> before the update.
\<close>

definition stop ::
  "log_sync_service \<Rightarrow> flush_env \<Rightarrow> fault + (event list \<times> exit \<times> log_sync_service)" where
  "stop s env =
     (case flush_buffer (s\<lparr>s_running := False\<rparr>) env of
        Inl e \<Rightarrow> Inl e
      | Inr (es, Raised, s1) \<Rightarrow> Inr (es, Raised, s1)
      | Inr (es, Returned, s1) \<Rightarrow>
          (let m = update_logs (s_state s1) False None None
           in Inr (es @ [SaveState (state_file m)], Returned, s1\<lparr>s_state := m\<rparr>)))"

text \<open>
  Runs of the two tasks that share the buffer. In \<open>run_buffer\<close> a step is one locked
  block: an append, or the drain of a flush, whose \<open>logs\<close> reference is collected. In
  \<open>run_service\<close> a step is an append or a whole flush.
\<close>

datatype buffer_op = Append string | Drain

fun run_buffer :: "log_sync_service \<Rightarrow> buffer_op list \<Rightarrow> fault + (ref list \<times> log_sync_service)" where
  "run_buffer s [] = Inr ([], s)"
| "run_buffer s (Append log_line # ops) =
     (case add_to_buffer log_line s of
        Inl e \<Rightarrow> Inl e
      | Inr (_, s1) \<Rightarrow> run_buffer s1 ops)"
| "run_buffer s (Drain # ops) =
     (case drain s of
        Inl e \<Rightarrow> Inl e
      | Inr (None, s1) \<Rightarrow> run_buffer s1 ops
      | Inr (Some logs, s1) \<Rightarrow>
          (case run_buffer s1 ops of
             Inl e \<Rightarrow> Inl e
           | Inr (rs, s2) \<Rightarrow> Inr (logs # rs, s2)))"

fun appended :: "buffer_op list \<Rightarrow> string list" where
  "appended [] = []"
| "appended (Append log_line # ops) = log_line # appended ops"
| "appended (Drain # ops) = appended ops"

text \<open>
  What the drains of a run are due, read off the list of steps alone, from the lines
  \<open>pending\<close> in the buffer: a drain that finds lines pending is due all of them, in
  order, and leaves none pending; a drain that finds none is due nothing; an append adds
  its line to the pending ones. \<open>batches\<close> lists what each flush is due, in order, and
  \<open>still_pending\<close> is what waits in the buffer after the last step.
\<close>

fun batches :: "string list \<Rightarrow> buffer_op list \<Rightarrow> string list list" where
  "batches pending [] = []"
| "batches pending (Append log_line # ops) = batches (pending @ [log_line]) ops"
| "batches pending (Drain # ops) =
     (if pending = [] then batches [] ops else pending # batches [] ops)"

fun still_pending :: "string list \<Rightarrow> buffer_op list \<Rightarrow> string list" where
  "still_pending pending [] = pending"
| "still_pending pending (Append log_line # ops) = still_pending (pending @ [log_line]) ops"
| "still_pending pending (Drain # ops) = still_pending [] ops"

datatype service_op = Log string | Flush flush_env

fun run_service :: "log_sync_service \<Rightarrow> service_op list \<Rightarrow> fault + (event list \<times> log_sync_service)" where
  "run_service s [] = Inr ([], s)"
| "run_service s (Log log_line # ops) =
     (case add_to_buffer log_line s of
        Inl e \<Rightarrow> Inl e
      | Inr (_, s1) \<Rightarrow> run_service s1 ops)"
| "run_service s (Flush env # ops) =
     (case flush_buffer s env of
        Inl e \<Rightarrow> Inl e
      | Inr (es, _, s1) \<Rightarrow>
          (case run_service s1 ops of
             Inl e \<Rightarrow> Inl e
           | Inr (es', s2) \<Rightarrow> Inr (es @ es', s2)))"

fun send_targets :: "event list \<Rightarrow> int list" where
  "send_targets [] = []"
| "send_targets (Send thread _ # es) = thread # send_targets es"
| "send_targets (_ # es) = send_targets es"

fun flush_dates :: "service_op list \<Rightarrow> string list" where
  "flush_dates [] = []"
| "flush_dates (Flush env # ops) = today env # flush_dates ops"
| "flush_dates (Log _ # ops) = flush_dates ops"

text \<open>A list of events that only sends to one thread, or waits before a retry.\<close>

definition posts_to :: "int \<Rightarrow> event list \<Rightarrow> bool" where
  "posts_to thread es = (\<forall>e \<in> set es. e = Wait \<or> (\<exists>text. e = Send thread text))"

subsection \<open>A service in use\<close>

text \<open>
  A started service on 2026-01-01, posting to thread 1, with nothing buffered and no
  state file yet; and the same service with the line \<open>x\<close> buffered.
\<close>

definition service_on_day1 :: log_sync_service where
  "service_on_day1 =
     (LogSyncService 1900 \<lparr>state_file = Missing, m_state = None\<rparr>)
       \<lparr>s_running := True, s_current_thread := Some 1, s_current_date := Some ''2026-01-01''\<rparr>"

definition service_with_line :: log_sync_service where
  "service_with_line =
     service_on_day1\<lparr>memory := list_append (s_log_buffer service_on_day1) ''x''
                                   (memory service_on_day1)\<rparr>"

section \<open>Event stream: \<open>services/websocket_client.py\<close>\<close>

subsection \<open>Parsed messages\<close>

text \<open>
  The values \<open>json.loads\<close> returns. A \<open>dict\<close> is an association list read with
  \<open>map_of\<close>. \<open>json.loads\<close>, \<open>json.dumps\<close> and \<open>str\<close> belong to the Python library
  and are arguments of the model: \<open>loads\<close> answers \<open>None\<close> where \<open>json.loads\<close> raises
  \<open>JSONDecodeError\<close>.
\<close>

datatype json =
  JNull
| JBool bool
| JInt int
| JFloat real
| JStr string
| JList "json list"
| JDict "(string \<times> json) list"

record pylib =
  loads :: "string \<Rightarrow> json option"
  dumps :: "json \<Rightarrow> string"
  str :: "json \<Rightarrow> string"

datatype py_error = AttributeError

definition log_keys :: "string list" where
  "log_keys = [''message'', ''msg'', ''log'', ''line'', ''text'', ''data'']"

text \<open>The \<open>for key in (...)\<close> loop of \<open>_extract_log_line\<close>.\<close>

fun probe :: "string list \<Rightarrow> (string \<times> json) list \<Rightarrow> string option" where
  "probe [] d = None"
| "probe (key # keys) d =
     (case map_of d key of
        Some (JStr text) \<Rightarrow> Some text
      | _ \<Rightarrow> probe keys d)"

definition extract_log_line :: "pylib \<Rightarrow> json \<Rightarrow> string" where
  "extract_log_line lib data =
     (case data of
        JStr text \<Rightarrow> text
      | JDict d \<Rightarrow>
          (case probe log_keys d of
             Some text \<Rightarrow> text
           | None \<Rightarrow> dumps lib data)
      | JNull \<Rightarrow> []
      | _ \<Rightarrow> str lib data)"

definition dict_get :: "(string \<times> json) list \<Rightarrow> string \<Rightarrow> json \<Rightarrow> json" where
  "dict_get d key fallback = (case map_of d key of None \<Rightarrow> fallback | Some v \<Rightarrow> v)"

text \<open>What one entry hands to the callback: its line, unless the line is empty or no
  callback is set.\<close>

definition deliver :: "pylib \<Rightarrow> bool \<Rightarrow> json \<Rightarrow> string list" where
  "deliver lib has_callback entry =
     (let log_line = extract_log_line lib entry
      in if log_line \<noteq> [] \<and> has_callback then [log_line] else [])"

text \<open>
  \<open>_process_message\<close>: the result is the list of arguments the log callback is called
  with, in order. \<open>has_callback\<close> says whether \<open>_log_callback\<close> is set. A message that
  parses to something other than a \<open>dict\<close> has no \<open>get\<close>.
\<close>

definition process_message :: "pylib \<Rightarrow> bool \<Rightarrow> string \<Rightarrow> py_error + string list" where
  "process_message lib has_callback message_raw =
     (case loads lib message_raw of
        None \<Rightarrow> Inr (if has_callback then [message_raw] else [])
      | Some (JDict message) \<Rightarrow>
          (let msg_type = dict_get message ''type'' (JStr [])
           in if msg_type = JStr ''console''
              then Inr (deliver lib has_callback (dict_get message ''data'' (JStr [])))
              else if msg_type = JStr ''logs''
              then (case dict_get message ''logs'' (dict_get message ''data'' (JList [])) of
                      JList logs \<Rightarrow> Inr (concat (map (deliver lib has_callback) logs))
                    | _ \<Rightarrow> Inr [])
              else Inr [])
      | Some _ \<Rightarrow> Inl AttributeError)"

subsection \<open>Reconnecting\<close>

text \<open>
  The attributes \<open>_running\<close>, \<open>_connected\<close>, \<open>_reconnect_delay\<close> and
  \<open>_max_reconnect_delay\<close>. The delays are the floats \<open>1.0\<close>, \<open>60.0\<close> and doublings below
  \<open>128\<close>, all of them exact, and are read as real numbers.
\<close>

record ws_client =
  w_running :: bool
  w_connected :: bool
  w_reconnect_delay :: real
  w_max_reconnect_delay :: real

definition WebSocketLogClient :: ws_client where
  "WebSocketLogClient =
     \<lparr>w_running = False, w_connected = False, w_reconnect_delay = 1,
      w_max_reconnect_delay = 60\<rparr>"

text \<open>\<open>connect\<close>, given whether the attempt succeeds: only a success sets \<open>_connected\<close>.\<close>

definition connect :: "ws_client \<Rightarrow> bool \<Rightarrow> bool \<times> ws_client" where
  "connect c ok = (if ok then (True, c\<lparr>w_connected := True\<rparr>) else (False, c))"

datatype task = ReceiveLoop | ReconnectLoop

definition start :: "ws_client \<Rightarrow> bool \<Rightarrow> (bool \<times> task) \<times> ws_client" where
  "start c ok =
     (let c1 = c\<lparr>w_running := True\<rparr>;
          c2 = c1\<lparr>w_reconnect_delay := 1\<rparr>
      in case connect c2 ok of
           (success, c3) \<Rightarrow>
             if success then ((success, ReceiveLoop), c3)
             else ((success, ReconnectLoop), c3))"

text \<open>
  One turn of \<open>_reconnect_loop\<close> meets either a \<open>_running\<close> flag cleared during the
  sleep or the result of its connect attempt. The loop is run against the list of what
  its turns meet; when the list ends before the loop does, the loop is still waiting.
  The result lists the delays slept, in order.
\<close>

datatype turn = Stopped | Attempt bool

datatype loop_end = Exited | StartedReceiveLoop | StillWaiting

fun reconnect_loop :: "ws_client \<Rightarrow> turn list \<Rightarrow> real list \<times> loop_end \<times> ws_client" where
  "reconnect_loop c [] =
     (if w_running c \<and> \<not> w_connected c then ([], StillWaiting, c) else ([], Exited, c))"
| "reconnect_loop c (t # ts) =
     (if w_running c \<and> \<not> w_connected c
      then
        (case t of
           Stopped \<Rightarrow> ([w_reconnect_delay c], Exited, c\<lparr>w_running := False\<rparr>)
         | Attempt ok \<Rightarrow>
             (case connect c ok of
                (success, c1) \<Rightarrow>
                  if success
                  then ([w_reconnect_delay c], StartedReceiveLoop, c1\<lparr>w_reconnect_delay := 1\<rparr>)
                  else
                    (case reconnect_loop
                            (c1\<lparr>w_reconnect_delay :=
                                   min (w_reconnect_delay c1 * 2) (w_max_reconnect_delay c1)\<rparr>) ts of
                       (delays, r) \<Rightarrow> (w_reconnect_delay c # delays, r))))
      else ([], Exited, c))"

section \<open>Properties of the action coordinator\<close>

subsection \<open>What one call does\<close>

lemma acquire_cases:
  "acquire g a t1 t2 =
     Inr (if locked (g_lock g) then ((False, g_current_action g), g)
          else if t1 - g_last_action_time g < cooldown_sec g
               then ((False, Some ''cooldown''), g)
               else ((True, None),
                     g\<lparr>g_lock := \<lparr>locked = True\<rparr>, g_current_action := Some a,
                       g_last_action_time := t2\<rparr>))"
  by (simp add: acquire_def lock_acquire_def lock_release_def Let_def)

lemma release_cases:
  "release g = Inr (g\<lparr>g_current_action := None, g_lock := \<lparr>locked = False\<rparr>\<rparr>)"
  by (cases g) (auto simp: release_def lock_release_def Let_def)

text \<open>
  The last-grant time of a new coordinator is \<open>0\<close>, so a first \<open>acquire\<close> whose clock
  reading is below the cooldown is answered \<open>cooldown\<close>. The clock is \<open>time.time()\<close>,
  seconds since 1970, which is far above any configured cooldown.
\<close>

lemma fresh_lock_cooldown:
  "t1 < c \<Longrightarrow>
     acquire (GlobalActionLock c) a t1 t2 = Inr ((False, Some ''cooldown''), GlobalActionLock c)"
  by (simp add: acquire_cases GlobalActionLock_def)

lemma do_call_total: "\<exists>b g'. do_call g c = Inr (b, g')"
  by (cases c) (auto simp: do_call_def acquire_cases release_cases)

lemma do_call_locked_acquire:
  "locked (g_lock g) \<Longrightarrow> c \<noteq> Release \<Longrightarrow> do_call g c = Inr (False, g)"
  by (cases c) (auto simp: do_call_def acquire_cases)

lemma do_call_granted_locks:
  "do_call g c = Inr (True, g') \<Longrightarrow> locked (g_lock g')"
  by (cases c) (auto simp: do_call_def acquire_cases release_cases split: if_splits)

subsection \<open>Runs of calls\<close>

lemma run_calls_total: "\<exists>bs g'. run_calls g cs = Inr (bs, g') \<and> length bs = length cs"
proof (induction cs arbitrary: g)
  case Nil
  show ?case by simp
next
  case (Cons c cs)
  obtain b g1 where s: "do_call g c = Inr (b, g1)" using do_call_total by blast
  obtain bs g2 where r: "run_calls g1 cs = Inr (bs, g2)" "length bs = length cs"
    using Cons.IH by blast
  show ?case using s r by simp
qed

text \<open>While the lock is held, nothing is granted until a \<open>release\<close> has been called.\<close>

lemma locked_no_grant_before_release:
  "locked (g_lock g) \<Longrightarrow> run_calls g cs = Inr (bs, g') \<Longrightarrow> j < length cs \<Longrightarrow> bs ! j
     \<Longrightarrow> \<exists>k<j. cs ! k = Release"
proof (induction cs arbitrary: g bs j)
  case Nil
  then show ?case by simp
next
  case (Cons c cs)
  show ?case
  proof (cases "c = Release")
    case True
    show ?thesis
    proof (cases j)
      case 0
      with Cons.prems True show ?thesis
        by (auto simp: do_call_def release_cases split: sum.splits)
    next
      case (Suc n)
      with True show ?thesis by auto
    qed
  next
    case False
    with Cons.prems(1) have s: "do_call g c = Inr (False, g)"
      by (rule do_call_locked_acquire)
    with Cons.prems(2) obtain bs' where bs: "bs = False # bs'" "run_calls g cs = Inr (bs', g')"
      by (auto split: sum.splits)
    show ?thesis
    proof (cases j)
      case 0
      with Cons.prems(4) bs show ?thesis by simp
    next
      case (Suc n)
      with Cons.prems bs have "\<exists>k<n. cs ! k = Release"
        using Cons.IH[of g bs' n] by simp
      then obtain k where "k < n" "cs ! k = Release" by blast
      then have "Suc k < j \<and> (c # cs) ! Suc k = Release" using Suc by simp
      then show ?thesis by blast
    qed
  qed
qed

lemma grants_separated:
  "run_calls g cs = Inr (bs, g') \<Longrightarrow> i < j \<Longrightarrow> j < length cs \<Longrightarrow> bs ! i \<Longrightarrow> bs ! j
     \<Longrightarrow> \<exists>k. i < k \<and> k < j \<and> cs ! k = Release"
proof (induction cs arbitrary: g bs i j)
  case Nil
  then show ?case by simp
next
  case (Cons c cs)
  obtain b g1 where s: "do_call g c = Inr (b, g1)" using do_call_total by blast
  with Cons.prems(1) obtain bs' where bs: "bs = b # bs'" "run_calls g1 cs = Inr (bs', g')"
    by (auto split: sum.splits)
  obtain n where j: "j = Suc n" using Cons.prems(2) by (cases j) auto
  show ?case
  proof (cases i)
    case 0
    with Cons.prems(4) bs have "b" by simp
    with s have "locked (g_lock g1)" by (auto dest: do_call_granted_locks)
    moreover have "n < length cs" "bs' ! n" using Cons.prems j bs by auto
    ultimately have "\<exists>k<n. cs ! k = Release"
      using locked_no_grant_before_release bs(2) by blast
    then obtain k where "k < n" "cs ! k = Release" by blast
    then have "i < Suc k \<and> Suc k < j \<and> (c # cs) ! Suc k = Release" using 0 j by simp
    then show ?thesis by blast
  next
    case (Suc m)
    have "\<exists>k. m < k \<and> k < n \<and> cs ! k = Release"
      using Cons.IH[of g1 bs' m n] Cons.prems Suc j bs by simp
    then obtain k where "m < k" "k < n" "cs ! k = Release" by blast
    then have "i < Suc k \<and> Suc k < j \<and> (c # cs) ! Suc k = Release" using Suc j by simp
    then show ?thesis by blast
  qed
qed

text \<open>The count of outstanding grants follows the lock flag.\<close>

lemma outstanding_follows_lock:
  "run_calls g cs = Inr (bs, g') \<Longrightarrow> n = (if locked (g_lock g) then 1 else 0)
     \<Longrightarrow> outstanding n (zip cs bs) = (if locked (g_lock g') then 1 else 0)"
proof (induction cs arbitrary: g bs n)
  case Nil
  then show ?case by simp
next
  case (Cons c cs)
  obtain b g1 where s: "do_call g c = Inr (b, g1)" using do_call_total by blast
  with Cons.prems(1) obtain bs' where bs: "bs = b # bs'" "run_calls g1 cs = Inr (bs', g')"
    by (auto split: sum.splits)
  show ?case
  proof (cases c)
    case (Acquire a t1 t2)
    have "outstanding (if b then Suc n else n) (zip cs bs') = (if locked (g_lock g') then 1 else 0)"
      using s Cons.prems(2) Acquire
      by (intro Cons.IH[OF bs(2)]) (auto simp: do_call_def acquire_cases split: if_splits)
    then show ?thesis using Acquire bs by simp
  next
    case Release
    have "outstanding (n - 1) (zip cs bs') = (if locked (g_lock g') then 1 else 0)"
      using s Cons.prems(2) Release
      by (intro Cons.IH[OF bs(2)]) (auto simp: do_call_def release_cases split: if_splits)
    then show ?thesis using Release bs by simp
  qed
qed

text \<open>
  C1. Every finite run of \<open>acquire\<close> and \<open>release\<close> calls, from any state of the
  coordinator, completes without a fault and never has two grants outstanding at once:
  between any two granted acquires of the run there is a release; when the run starts
  with the lock held, a release comes before its first grant; and the number of grants
  outstanding at the end, counting the one held at the start, is at most one. As the
  run is arbitrary, this holds after each of its prefixes.
\<close>

theorem one_holder_at_a_time:
  "\<exists>bs g'. run_calls g cs = Inr (bs, g') \<and> length bs = length cs \<and>
     (\<forall>i j. i < j \<and> j < length cs \<and> bs ! i \<and> bs ! j
        \<longrightarrow> (\<exists>k. i < k \<and> k < j \<and> cs ! k = Release)) \<and>
     (\<forall>j. locked (g_lock g) \<and> j < length cs \<and> bs ! j \<longrightarrow> (\<exists>k<j. cs ! k = Release)) \<and>
     outstanding (if locked (g_lock g) then 1 else 0) (zip cs bs) \<le> 1"
proof -
  obtain bs g' where r: "run_calls g cs = Inr (bs, g')" "length bs = length cs"
    using run_calls_total by blast
  have sep: "\<forall>i j. i < j \<and> j < length cs \<and> bs ! i \<and> bs ! j
        \<longrightarrow> (\<exists>k. i < k \<and> k < j \<and> cs ! k = Release)"
    using grants_separated[OF r(1)] by blast
  have held: "\<forall>j. locked (g_lock g) \<and> j < length cs \<and> bs ! j \<longrightarrow> (\<exists>k<j. cs ! k = Release)"
    using locked_no_grant_before_release[OF _ r(1)] by blast
  have "outstanding (if locked (g_lock g) then 1 else 0) (zip cs bs)
          = (if locked (g_lock g') then 1 else 0)"
    using outstanding_follows_lock[OF r(1)] by simp
  then have cnt: "outstanding (if locked (g_lock g) then 1 else 0) (zip cs bs) \<le> 1" by simp
  show ?thesis using r sep held cnt by blast
qed

theorem one_holder_at_a_time_witness:
  "run_calls (GlobalActionLock 10)
      [Acquire ''start'' 100 100, Acquire ''stop'' 101 101, Release, Acquire ''stop'' 111 111]
     = Inr ([True, False, False, True],
            \<lparr>cooldown_sec = 10, g_lock = \<lparr>locked = True\<rparr>, g_last_action_time = 111,
             g_current_action = Some ''stop''\<rparr>) \<and>
   (\<exists>k. 0 < k \<and> k < 3 \<and>
      [Acquire ''start'' 100 100, Acquire ''stop'' 101 101, Release, Acquire ''stop'' 111 111] ! k
        = Release)"
proof -
  let ?cs = "[Acquire ''start'' 100 100, Acquire ''stop'' 101 101, Release, Acquire ''stop'' 111 111]"
  have run: "run_calls (GlobalActionLock 10) ?cs
     = Inr ([True, False, False, True],
            \<lparr>cooldown_sec = 10, g_lock = \<lparr>locked = True\<rparr>, g_last_action_time = 111,
             g_current_action = Some ''stop''\<rparr>)"
    by (simp add: GlobalActionLock_def do_call_def acquire_cases release_cases)
  from one_holder_at_a_time[of "GlobalActionLock 10" ?cs] obtain bs g' where
    r: "run_calls (GlobalActionLock 10) ?cs = Inr (bs, g')" and
    sep: "\<forall>i j. i < j \<and> j < length ?cs \<and> bs ! i \<and> bs ! j
        \<longrightarrow> (\<exists>k. i < k \<and> k < j \<and> ?cs ! k = Release)"
    by blast
  from r run have bs: "bs = [True, False, False, True]" by simp
  have "(0::nat) < 3 \<and> 3 < length ?cs \<and> bs ! 0 \<and> bs ! 3" using bs by simp
  with sep have "\<exists>k. 0 < k \<and> k < 3 \<and> ?cs ! k = Release" by blast
  with run show ?thesis by blast
qed

text \<open>The recorded holder is the kind of the outstanding grant, and is set exactly while
  the lock is held.\<close>

lemma holder_recorded:
  "run_calls g cs = Inr (bs, g') \<Longrightarrow>
     g_current_action g' = holder_after (g_current_action g) (zip cs bs) \<and>
     ((locked (g_lock g) \<longleftrightarrow> g_current_action g \<noteq> None)
        \<longrightarrow> (locked (g_lock g') \<longleftrightarrow> g_current_action g' \<noteq> None))"
proof (induction cs arbitrary: g bs)
  case Nil
  then show ?case by simp
next
  case (Cons c cs)
  obtain b g1 where s: "do_call g c = Inr (b, g1)" using do_call_total by blast
  with Cons.prems obtain bs' where bs: "bs = b # bs'" "run_calls g1 cs = Inr (bs', g')"
    by (auto split: sum.splits)
  note ih = Cons.IH[OF bs(2)]
  show ?case
  proof (cases c)
    case (Acquire a t1 t2)
    with s have "g_current_action g1 = (if b then Some a else g_current_action g)"
      and "(locked (g_lock g) \<longleftrightarrow> g_current_action g \<noteq> None)
             \<longrightarrow> (locked (g_lock g1) \<longleftrightarrow> g_current_action g1 \<noteq> None)"
      by (auto simp: do_call_def acquire_cases split: if_splits)
    with ih Acquire bs show ?thesis by simp
  next
    case Release
    with s have "g_current_action g1 = None" "\<not> locked (g_lock g1)"
      by (auto simp: do_call_def release_cases)
    with ih Release bs show ?thesis by simp
  qed
qed

text \<open>
  C2. \<open>acquire\<close> always returns, without a fault and without suspending. If the lock is
  held it returns \<open>(False, _current_action)\<close> and leaves the coordinator as it was.
  Otherwise it takes the lock; if the first clock reading is less than \<open>cooldown_sec\<close>
  after the recorded last grant, it releases the lock again and returns
  \<open>(False, "cooldown")\<close>; else it returns \<open>(True, None)\<close> with the lock held, the action
  kind recorded as holder and the second clock reading recorded as the grant time. In
  every state reached from a new coordinator by \<open>acquire\<close> and \<open>release\<close> calls,
  \<open>_current_action\<close> is the kind of the outstanding grant, and is set exactly while the
  lock is held.
\<close>

theorem acquire_as_specified:
  "acquire g a t1 t2 =
     Inr (if locked (g_lock g) then ((False, g_current_action g), g)
          else if t1 - g_last_action_time g < cooldown_sec g
               then ((False, Some ''cooldown''), g)
               else ((True, None),
                     g\<lparr>g_lock := \<lparr>locked = True\<rparr>, g_current_action := Some a,
                       g_last_action_time := t2\<rparr>)) \<and>
   (run_calls (GlobalActionLock c) cs = Inr (bs, g) \<longrightarrow>
      g_current_action g = holder_after None (zip cs bs) \<and>
      (locked (g_lock g) \<longleftrightarrow> g_current_action g \<noteq> None))"
proof
  show "acquire g a t1 t2 =
     Inr (if locked (g_lock g) then ((False, g_current_action g), g)
          else if t1 - g_last_action_time g < cooldown_sec g
               then ((False, Some ''cooldown''), g)
               else ((True, None),
                     g\<lparr>g_lock := \<lparr>locked = True\<rparr>, g_current_action := Some a,
                       g_last_action_time := t2\<rparr>))"
  proof (cases "locked (g_lock g)")
    case True
    then show ?thesis by (simp add: acquire_def)
  next
    case False
    then have taken: "lock_acquire (g_lock g) = Inr ((g_lock g)\<lparr>locked := True\<rparr>)"
      by (simp add: lock_acquire_def)
    have freed: "lock_release ((g_lock g)\<lparr>locked := True\<rparr>) = Inr (g_lock g)"
      using False by (simp add: lock_release_def)
    show ?thesis
    proof (cases "t1 - g_last_action_time g < cooldown_sec g")
      case True
      with False taken freed show ?thesis by (simp add: acquire_def Let_def)
    next
      case no_cooldown: False
      with False taken show ?thesis by (simp add: acquire_def Let_def)
    qed
  qed
next
  show "run_calls (GlobalActionLock c) cs = Inr (bs, g) \<longrightarrow>
      g_current_action g = holder_after None (zip cs bs) \<and>
      (locked (g_lock g) \<longleftrightarrow> g_current_action g \<noteq> None)"
  proof
    assume "run_calls (GlobalActionLock c) cs = Inr (bs, g)"
    from holder_recorded[OF this] show "g_current_action g = holder_after None (zip cs bs) \<and>
      (locked (g_lock g) \<longleftrightarrow> g_current_action g \<noteq> None)"
      by (simp add: GlobalActionLock_def)
  qed
qed

theorem acquire_as_specified_witness:
  "run_calls (GlobalActionLock 10) [Acquire ''start'' 100 100]
     = Inr ([True],
            \<lparr>cooldown_sec = 10, g_lock = \<lparr>locked = True\<rparr>, g_last_action_time = 100,
             g_current_action = Some ''start''\<rparr>) \<and>
   acquire \<lparr>cooldown_sec = 10, g_lock = \<lparr>locked = True\<rparr>, g_last_action_time = 100,
            g_current_action = Some ''start''\<rparr> ''stop'' 101 101
     = Inr ((False, Some ''start''),
            \<lparr>cooldown_sec = 10, g_lock = \<lparr>locked = True\<rparr>, g_last_action_time = 100,
             g_current_action = Some ''start''\<rparr>) \<and>
   holder_after None (zip [Acquire ''start'' 100 100] [True]) = Some ''start''"
proof -
  let ?g = "\<lparr>cooldown_sec = 10, g_lock = \<lparr>locked = True\<rparr>, g_last_action_time = 100,
             g_current_action = Some ''start''\<rparr>"
  have run: "run_calls (GlobalActionLock 10) [Acquire ''start'' 100 100] = Inr ([True], ?g)"
    by (simp add: GlobalActionLock_def do_call_def acquire_cases)
  note th = acquire_as_specified[of ?g "''stop''" 101 101 10 "[Acquire ''start'' 100 100]" "[True]"]
  from th[THEN conjunct1] have a: "acquire ?g ''stop'' 101 101 = Inr ((False, Some ''start''), ?g)"
    by simp
  from th[THEN conjunct2, THEN mp, OF run]
  have h: "holder_after None (zip [Acquire ''start'' 100 100] [True]) = Some ''start''"
    by simp
  from run a h show ?thesis by simp
qed

text \<open>
  C3. After a granted \<open>acquire\<close> (grant time \<open>t2\<close>) and the \<open>release\<close> that follows it,
  an \<open>acquire\<close> of any kind whose clock reading \<open>t\<close> has \<open>t - t2 < cooldown_sec\<close> returns
  \<open>(False, "cooldown")\<close> and changes nothing, and one with \<open>t - t2 \<ge> cooldown_sec\<close> is
  granted. The scenario, with its times counted from the grant: with cooldown 10, when
  \<open>acquire("start")\<close> is granted at clock reading \<open>T\<close>, then after \<open>release\<close>,
  \<open>acquire("stop")\<close> at \<open>T + 3\<close> returns \<open>(False, "cooldown")\<close> and \<open>acquire("stop")\<close> at
  \<open>T + 11\<close> is granted. On a new coordinator with cooldown 10 that first
  \<open>acquire("start")\<close> is granted at every clock reading \<open>T \<ge> 10\<close>.
\<close>

theorem cooldown_window:
  "(acquire g a t1 t2 = Inr ((True, None), g1) \<and> release g1 = Inr g2 \<longrightarrow>
      acquire g2 b t t' =
        Inr (if t - t2 < cooldown_sec g then ((False, Some ''cooldown''), g2)
             else ((True, None),
                   g2\<lparr>g_lock := \<lparr>locked = True\<rparr>, g_current_action := Some b,
                      g_last_action_time := t'\<rparr>))) \<and>
   (cooldown_sec g = 10 \<and> acquire g ''start'' T T = Inr ((True, None), g1) \<and>
    release g1 = Inr g2 \<longrightarrow>
      acquire g2 ''stop'' (T + 3) (T + 3) = Inr ((False, Some ''cooldown''), g2) \<and>
      (\<exists>g3. acquire g2 ''stop'' (T + 11) (T + 11) = Inr ((True, None), g3))) \<and>
   (10 \<le> T \<longrightarrow>
      (\<exists>h1. acquire (GlobalActionLock 10) ''start'' T T = Inr ((True, None), h1)))"
proof (intro conjI impI)
  assume a: "acquire g a t1 t2 = Inr ((True, None), g1) \<and> release g1 = Inr g2"
  then have g1: "g1 = g\<lparr>g_lock := \<lparr>locked = True\<rparr>, g_current_action := Some a,
                       g_last_action_time := t2\<rparr>"
    by (auto simp: acquire_cases split: if_splits)
  from a have g2: "g2 = g1\<lparr>g_current_action := None, g_lock := \<lparr>locked = False\<rparr>\<rparr>"
    by (simp add: release_cases)
  show "acquire g2 b t t' =
        Inr (if t - t2 < cooldown_sec g then ((False, Some ''cooldown''), g2)
             else ((True, None),
                   g2\<lparr>g_lock := \<lparr>locked = True\<rparr>, g_current_action := Some b,
                      g_last_action_time := t'\<rparr>))"
    by (simp add: acquire_cases g1 g2)
next
  assume a: "cooldown_sec g = 10 \<and> acquire g ''start'' T T = Inr ((True, None), g1) \<and>
    release g1 = Inr g2"
  then have g1: "g1 = g\<lparr>g_lock := \<lparr>locked = True\<rparr>, g_current_action := Some ''start'',
                       g_last_action_time := T\<rparr>"
    by (auto simp: acquire_cases split: if_splits)
  from a have g2: "g2 = g1\<lparr>g_current_action := None, g_lock := \<lparr>locked = False\<rparr>\<rparr>"
    by (simp add: release_cases)
  from a have c: "cooldown_sec g = 10" by simp
  show "acquire g2 ''stop'' (T + 3) (T + 3) = Inr ((False, Some ''cooldown''), g2)"
    by (simp add: acquire_cases g1 g2 c)
  show "\<exists>g3. acquire g2 ''stop'' (T + 11) (T + 11) = Inr ((True, None), g3)"
    by (simp add: acquire_cases g1 g2 c)
next
  assume T: "10 \<le> T"
  then show "\<exists>h1. acquire (GlobalActionLock 10) ''start'' T T = Inr ((True, None), h1)"
    by (simp add: acquire_cases GlobalActionLock_def)
qed

theorem cooldown_window_witness:
  "acquire (GlobalActionLock 10) ''start'' 1700000000 1700000000
     = Inr ((True, None),
            \<lparr>cooldown_sec = 10, g_lock = \<lparr>locked = True\<rparr>, g_last_action_time = 1700000000,
             g_current_action = Some ''start''\<rparr>) \<and>
   release \<lparr>cooldown_sec = 10, g_lock = \<lparr>locked = True\<rparr>, g_last_action_time = 1700000000,
            g_current_action = Some ''start''\<rparr>
     = Inr \<lparr>cooldown_sec = 10, g_lock = \<lparr>locked = False\<rparr>, g_last_action_time = 1700000000,
            g_current_action = None\<rparr> \<and>
   acquire \<lparr>cooldown_sec = 10, g_lock = \<lparr>locked = False\<rparr>, g_last_action_time = 1700000000,
            g_current_action = None\<rparr> ''stop'' 1700000003 1700000003
     = Inr ((False, Some ''cooldown''),
            \<lparr>cooldown_sec = 10, g_lock = \<lparr>locked = False\<rparr>, g_last_action_time = 1700000000,
             g_current_action = None\<rparr>) \<and>
   acquire \<lparr>cooldown_sec = 10, g_lock = \<lparr>locked = False\<rparr>, g_last_action_time = 1700000000,
            g_current_action = None\<rparr> ''stop'' 1700000011 1700000011
     = Inr ((True, None),
            \<lparr>cooldown_sec = 10, g_lock = \<lparr>locked = True\<rparr>, g_last_action_time = 1700000011,
             g_current_action = Some ''stop''\<rparr>)"
proof -
  let ?g0 = "GlobalActionLock 10"
  let ?g1 = "\<lparr>cooldown_sec = 10, g_lock = \<lparr>locked = True\<rparr>, g_last_action_time = 1700000000,
             g_current_action = Some ''start''\<rparr>"
  let ?g2 = "\<lparr>cooldown_sec = 10, g_lock = \<lparr>locked = False\<rparr>, g_last_action_time = 1700000000,
            g_current_action = None\<rparr>"
  have a: "acquire ?g0 ''start'' 1700000000 1700000000 = Inr ((True, None), ?g1)"
    by (simp add: acquire_cases GlobalActionLock_def)
  have r: "release ?g1 = Inr ?g2"
    by (simp add: release_cases)
  have w: "\<And>b t t'. acquire ?g2 b t t' =
        Inr (if t - 1700000000 < cooldown_sec ?g0 then ((False, Some ''cooldown''), ?g2)
             else ((True, None),
                   ?g2\<lparr>g_lock := \<lparr>locked = True\<rparr>, g_current_action := Some b,
                      g_last_action_time := t'\<rparr>))"
    using cooldown_window[of ?g0 "''start''" 1700000000 1700000000 ?g1 ?g2] a r by blast
  have 3: "acquire ?g2 ''stop'' 1700000003 1700000003 = Inr ((False, Some ''cooldown''), ?g2)"
    by (simp add: w GlobalActionLock_def)
  have 4: "acquire ?g2 ''stop'' 1700000011 1700000011
     = Inr ((True, None),
            \<lparr>cooldown_sec = 10, g_lock = \<lparr>locked = True\<rparr>, g_last_action_time = 1700000011,
             g_current_action = Some ''stop''\<rparr>)"
    by (simp add: w GlobalActionLock_def)
  from a r 3 4 show ?thesis by blast
qed

text \<open>
  C9. An \<open>acquire\<close> that returns \<open>(False, _)\<close> leaves the coordinator exactly as it was.
  Either the reason is \<open>"cooldown"\<close> and the lock is free again on return, or the reason
  is the recorded holder and the lock is still held by that holder. The last-grant time
  is not modified, so \<open>get_remaining_cooldown\<close> answers the same at every clock reading.
\<close>

theorem denied_acquire_changes_nothing:
  "acquire g a t1 t2 = Inr ((False, reason), g') \<Longrightarrow>
     g' = g \<and>
     locked (g_lock g') = locked (g_lock g) \<and>
     (reason = Some ''cooldown'' \<and> \<not> locked (g_lock g') \<or>
      reason = g_current_action g \<and> locked (g_lock g)) \<and>
     g_last_action_time g' = g_last_action_time g \<and>
     get_remaining_cooldown g' now = get_remaining_cooldown g now"
  by (auto simp: acquire_cases split: if_splits)

theorem denied_acquire_changes_nothing_witness:
  "acquire \<lparr>cooldown_sec = 10, g_lock = \<lparr>locked = False\<rparr>, g_last_action_time = 1700000000,
            g_current_action = None\<rparr> ''stop'' 1700000003 1700000003
     = Inr ((False, Some ''cooldown''),
            \<lparr>cooldown_sec = 10, g_lock = \<lparr>locked = False\<rparr>, g_last_action_time = 1700000000,
             g_current_action = None\<rparr>) \<and>
   get_remaining_cooldown
      \<lparr>cooldown_sec = 10, g_lock = \<lparr>locked = False\<rparr>, g_last_action_time = 1700000000,
       g_current_action = None\<rparr> 1700000003 = 7"
  using denied_acquire_changes_nothing
    [of "\<lparr>cooldown_sec = 10, g_lock = \<lparr>locked = False\<rparr>, g_last_action_time = 1700000000,
          g_current_action = None\<rparr>" "''stop''" 1700000003 1700000003 "Some ''cooldown''"
        "\<lparr>cooldown_sec = 10, g_lock = \<lparr>locked = False\<rparr>, g_last_action_time = 1700000000,
          g_current_action = None\<rparr>" 1700000003]
  by (simp add: acquire_cases get_remaining_cooldown_def)

section \<open>Properties of the message splitter\<close>

lemma split_lines_ne [simp]: "split_lines t \<noteq> []"
  by (induction t) (auto split: list.splits)

lemma join_split [simp]: "join_lines (split_lines t) = t"
proof (induction t)
  case Nil
  show ?case by simp
next
  case (Cons c cs)
  obtain l ls where s: "split_lines cs = l # ls" by (cases "split_lines cs") auto
  show ?case using Cons s by (cases ls) auto
qed

lemma split_lines_no_newline: "l \<in> set (split_lines t) \<Longrightarrow> newline \<notin> set l"
  by (induction t arbitrary: l) (auto split: if_splits list.splits)

lemma split_lines_single: "newline \<notin> set l \<Longrightarrow> split_lines l = [l]"
  by (induction l) auto

lemma split_lines_append: "split_lines (a @ newline # b) = split_lines a @ split_lines b"
  by (induction a) (auto split: list.splits)

lemma join_lines_Cons: "join_lines (l # ls) = (if ls = [] then l else l @ newline # join_lines ls)"
  by (cases ls) auto

lemma join_lines_append:
  "join_lines (xs @ ys) =
     (if xs = [] then join_lines ys else if ys = [] then join_lines xs
      else join_lines xs @ newline # join_lines ys)"
  by (induction xs rule: join_lines.induct) (auto simp: join_lines_Cons)

lemma split_message_alt:
  "split_message m text =
     (if int (length text) \<le> m - 10 then (if text \<noteq> [] then [text] else [])
      else split_finish (foldl (split_step (m - 10)) ([], []) (split_lines text)))"
  by (simp add: split_message_def Let_def)

subsection \<open>Joining the chunks\<close>

lemma loop_join:
  "cur \<noteq> [] \<Longrightarrow> [] \<notin> set ls \<Longrightarrow>
     join_lines (split_finish (foldl (split_step k) (chunks, cur) ls)) = join_lines (chunks @ cur # ls)"
proof (induction ls arbitrary: chunks cur)
  case Nil
  then show ?case by (simp add: split_finish_def)
next
  case (Cons l ls)
  have l: "l \<noteq> []" and ls: "[] \<notin> set ls" using Cons.prems(2) by auto
  show ?case
  proof (cases "int (length cur) + int (length l) + 1 > k")
    case True
    then have "split_step k (chunks, cur) l = (chunks @ [cur], l)"
      using Cons.prems(1) by (simp add: split_step_def)
    then show ?thesis using Cons.IH[OF l ls, of "chunks @ [cur]"] by simp
  next
    case False
    then have "split_step k (chunks, cur) l = (chunks, cur @ newline # l)"
      using Cons.prems(1) by (simp add: split_step_def)
    moreover have "join_lines (chunks @ (cur @ newline # l) # ls) = join_lines (chunks @ cur # l # ls)"
      by (simp add: join_lines_append join_lines_Cons)
    ultimately show ?thesis using Cons.IH[OF _ ls, of "cur @ newline # l" chunks] by simp
  qed
qed

lemma split_message_roundtrip:
  assumes "[] \<notin> set (split_lines text) \<or> int (length text) \<le> m - 10"
  shows "join_lines (split_message m text) = text"
proof (cases "int (length text) \<le> m - 10")
  case True
  then show ?thesis by (simp add: split_message_alt)
next
  case False
  with assms have ne: "[] \<notin> set (split_lines text)" by simp
  obtain l ls where s: "split_lines text = l # ls" by (cases "split_lines text") auto
  with ne have l: "l \<noteq> []" and ls: "[] \<notin> set ls" by auto
  have first: "split_step (m - 10) ([], []) l = ([], l)" by (simp add: split_step_def)
  have "join_lines (split_finish (foldl (split_step (m - 10)) ([], l) ls)) = join_lines ([] @ l # ls)"
    by (rule loop_join[OF l ls])
  then have "join_lines (split_message m text) = join_lines (split_lines text)"
    using False s first by (simp add: split_message_alt)
  then show ?thesis by simp
qed

subsection \<open>Length of a chunk\<close>

lemma loop_bound:
  "\<forall>c \<in> set chunks. int (length c) \<le> k \<or> c \<in> L \<Longrightarrow> int (length cur) \<le> k \<or> cur \<in> L \<or> cur = [] \<Longrightarrow>
   set ls \<subseteq> L \<Longrightarrow>
     \<forall>c \<in> set (split_finish (foldl (split_step k) (chunks, cur) ls)). int (length c) \<le> k \<or> c \<in> L"
proof (induction ls arbitrary: chunks cur)
  case Nil
  then show ?case by (auto simp: split_finish_def)
next
  case (Cons l ls)
  have lL: "l \<in> L" and ls: "set ls \<subseteq> L" using Cons.prems(3) by auto
  show ?case
  proof (cases "int (length cur) + int (length l) + 1 > k")
    case True
    then have st: "split_step k (chunks, cur) l = (if cur \<noteq> [] then chunks @ [cur] else chunks, l)"
      by (simp add: split_step_def)
    have "\<forall>c \<in> set (if cur \<noteq> [] then chunks @ [cur] else chunks). int (length c) \<le> k \<or> c \<in> L"
      using Cons.prems(1,2) by auto
    from Cons.IH[OF this _ ls, of l] lL st show ?thesis by simp
  next
    case False
    then have st: "split_step k (chunks, cur) l = (chunks, if cur \<noteq> [] then cur @ newline # l else l)"
      by (simp add: split_step_def)
    have "int (length (if cur \<noteq> [] then cur @ newline # l else l)) \<le> k
          \<or> (if cur \<noteq> [] then cur @ newline # l else l) \<in> L
          \<or> (if cur \<noteq> [] then cur @ newline # l else l) = []"
      using False lL by auto
    from Cons.IH[OF Cons.prems(1) this ls] st show ?thesis by simp
  qed
qed

lemma split_message_bound:
  "\<forall>c \<in> set (split_message m text). int (length c) \<le> m - 10 \<or> c \<in> set (split_lines text)"
proof (cases "int (length text) \<le> m - 10")
  case True
  then show ?thesis by (simp add: split_message_alt)
next
  case False
  have "\<forall>c \<in> set (split_finish (foldl (split_step (m - 10)) ([], []) (split_lines text))).
           int (length c) \<le> m - 10 \<or> c \<in> set (split_lines text)"
    by (rule loop_bound) auto
  then show ?thesis using False by (simp add: split_message_alt)
qed

subsection \<open>Lines stay whole, and packing is greedy\<close>

lemma lines_of_append [simp]: "lines_of (xs @ ys) = lines_of xs @ lines_of ys"
  by (simp add: lines_of_def)

lemma lines_of_Nil [simp]: "lines_of [] = []"
  by (simp add: lines_of_def)

lemma lines_of_single: "newline \<notin> set l \<Longrightarrow> lines_of [l] = (if l = [] then [] else [l])"
  by (simp add: lines_of_def split_lines_single)

lemma lines_of_glue:
  "lines_of [a @ newline # b] = lines_of [a] @ lines_of [b]"
  by (simp add: lines_of_def split_lines_append)

lemma loop_lines:
  "\<forall>l \<in> set ls. newline \<notin> set l \<Longrightarrow>
     lines_of (split_finish (foldl (split_step k) (chunks, cur) ls))
       = lines_of chunks @ lines_of [cur] @ filter (\<lambda>l. l \<noteq> []) ls"
proof (induction ls arbitrary: chunks cur)
  case Nil
  then show ?case by (simp add: split_finish_def lines_of_def)
next
  case (Cons l ls)
  have l: "newline \<notin> set l" and ls: "\<forall>l \<in> set ls. newline \<notin> set l" using Cons.prems by auto
  have one: "lines_of [l] = (if l = [] then [] else [l])" using l by (rule lines_of_single)
  have emp: "lines_of [[]] = []" by (simp add: lines_of_def)
  show ?case
  proof (cases "int (length cur) + int (length l) + 1 > k")
    case True
    then have st: "split_step k (chunks, cur) l = (if cur \<noteq> [] then chunks @ [cur] else chunks, l)"
      by (simp add: split_step_def)
    show ?thesis using Cons.IH[OF ls, of "if cur \<noteq> [] then chunks @ [cur] else chunks" l] st one emp
      by auto
  next
    case False
    then have st: "split_step k (chunks, cur) l = (chunks, if cur \<noteq> [] then cur @ newline # l else l)"
      by (simp add: split_step_def)
    show ?thesis using Cons.IH[OF ls, of chunks "if cur \<noteq> [] then cur @ newline # l else l"] st one emp
      by (auto simp: lines_of_glue)
  qed
qed

lemma split_message_lines:
  "lines_of (split_message m text) = filter (\<lambda>l. l \<noteq> []) (split_lines text)"
proof (cases "int (length text) \<le> m - 10")
  case True
  then show ?thesis by (simp add: split_message_alt lines_of_def)
next
  case False
  have "\<forall>l \<in> set (split_lines text). newline \<notin> set l"
    using split_lines_no_newline by blast
  from loop_lines[OF this, of "m - 10" "[]" "[]"] False show ?thesis
    by (simp add: split_message_alt lines_of_def)
qed

lemma first_line_glue: "first_line (a @ newline # b) = first_line a"
  by (induction a) (auto simp: first_line_def)

lemma first_line_whole: "newline \<notin> set l \<Longrightarrow> first_line l = l"
  by (auto simp: first_line_def)

lemma first_line_hd: "first_line t = hd (split_lines t)"
  by (induction t) (auto simp: first_line_def split: list.splits)

lemma loop_greedy:
  "\<forall>l \<in> set ls. newline \<notin> set l \<Longrightarrow> successively (overflows k) chunks \<Longrightarrow>
   chunks \<noteq> [] \<longrightarrow> (if cur \<noteq> [] then overflows k (last chunks) cur
                     else int (length (last chunks)) + 1 > k) \<Longrightarrow>
     successively (overflows k) (split_finish (foldl (split_step k) (chunks, cur) ls))"
proof (induction ls arbitrary: chunks cur)
  case Nil
  then show ?case by (auto simp: split_finish_def successively_append_iff)
next
  case (Cons l ls)
  have l: "first_line l = l" and ls: "\<forall>l \<in> set ls. newline \<notin> set l"
    using Cons.prems(1) by (auto simp: first_line_whole)
  show ?case
  proof (cases "int (length cur) + int (length l) + 1 > k")
    case True
    let ?chunks = "if cur \<noteq> [] then chunks @ [cur] else chunks"
    have st: "split_step k (chunks, cur) l = (?chunks, l)"
      using True by (simp add: split_step_def)
    have a: "successively (overflows k) ?chunks"
      using Cons.prems(2,3) by (auto simp: successively_append_iff)
    have b: "?chunks \<noteq> [] \<longrightarrow> (if l \<noteq> [] then overflows k (last ?chunks) l
                     else int (length (last ?chunks)) + 1 > k)"
      using Cons.prems(3) True l by (auto simp: overflows_def)
    show ?thesis using Cons.IH[OF ls a b] st by simp
  next
    case False
    let ?cur = "if cur \<noteq> [] then cur @ newline # l else l"
    have st: "split_step k (chunks, cur) l = (chunks, ?cur)"
      using False by (simp add: split_step_def)
    have b: "chunks \<noteq> [] \<longrightarrow> (if ?cur \<noteq> [] then overflows k (last chunks) ?cur
                     else int (length (last chunks)) + 1 > k)"
      using Cons.prems(3) l by (auto simp: overflows_def first_line_glue)
    show ?thesis using Cons.IH[OF ls Cons.prems(2) b] st by simp
  qed
qed

lemma split_message_greedy:
  "successively (overflows (m - 10)) (split_message m text)"
proof (cases "int (length text) \<le> m - 10")
  case True
  then show ?thesis by (simp add: split_message_alt)
next
  case False
  have "\<forall>l \<in> set (split_lines text). newline \<notin> set l"
    using split_lines_no_newline by blast
  from loop_greedy[OF this, of "m - 10" "[]" "[]"] False show ?thesis
    by (simp add: split_message_alt)
qed

text \<open>
  C4, as the code has it. With \<open>max_len = max_chars_per_post - 10\<close>, for every text:
  joining the chunks with newlines gives the text back when the text has no empty line
  or is at most \<open>max_len\<close> long; every chunk is at most \<open>max_len\<close> long or is one whole
  line of the text, so no chunk exceeds \<open>max_len\<close> when no line does; the non-empty lines
  of the chunks are the non-empty lines of the text, in order, so no line is cut; and
  each chunk is closed only when its length, a separator and the next chunk's first line
  together exceed \<open>max_len\<close>. The lines of 50 \<open>A\<close>s and 50 \<open>B\<close>s with \<open>max_len = 60\<close> give
  exactly those two lines as chunks.
\<close>

theorem split_message_chunks:
  "([] \<notin> set (split_lines text) \<or> int (length text) \<le> m - 10
      \<longrightarrow> join_lines (split_message m text) = text) \<and>
   (\<forall>c \<in> set (split_message m text). int (length c) \<le> m - 10 \<or> c \<in> set (split_lines text)) \<and>
   ((\<forall>l \<in> set (split_lines text). int (length l) \<le> m - 10)
      \<longrightarrow> (\<forall>c \<in> set (split_message m text). int (length c) \<le> m - 10)) \<and>
   lines_of (split_message m text) = filter (\<lambda>l. l \<noteq> []) (split_lines text) \<and>
   successively (overflows (m - 10)) (split_message m text) \<and>
   split_message 70 (replicate 50 (CHR ''A'') @ newline # replicate 50 (CHR ''B''))
     = [replicate 50 (CHR ''A''), replicate 50 (CHR ''B'')]"
proof -
  have a: "[] \<notin> set (split_lines text) \<or> int (length text) \<le> m - 10
      \<longrightarrow> join_lines (split_message m text) = text"
    using split_message_roundtrip by blast
  have b: "\<forall>c \<in> set (split_message m text). int (length c) \<le> m - 10 \<or> c \<in> set (split_lines text)"
    by (rule split_message_bound)
  then have b': "(\<forall>l \<in> set (split_lines text). int (length l) \<le> m - 10)
      \<longrightarrow> (\<forall>c \<in> set (split_message m text). int (length c) \<le> m - 10)"
    by blast
  have c: "lines_of (split_message m text) = filter (\<lambda>l. l \<noteq> []) (split_lines text)"
    by (rule split_message_lines)
  have d: "successively (overflows (m - 10)) (split_message m text)"
    by (rule split_message_greedy)
  have e: "split_message 70 (replicate 50 (CHR ''A'') @ newline # replicate 50 (CHR ''B''))
     = [replicate 50 (CHR ''A''), replicate 50 (CHR ''B'')]"
    by code_simp
  from a b b' c d e show ?thesis by blast
qed

theorem split_message_chunks_witness:
  "split_message 15 (''abc'' @ newline # ''def'') = [''abc'', ''def''] \<and>
   join_lines (split_message 15 (''abc'' @ newline # ''def'')) = ''abc'' @ newline # ''def'' \<and>
   int (length ''abc'') \<le> 15 - 10 \<and> int (length ''def'') \<le> 15 - 10 \<and>
   overflows (15 - 10) ''abc'' ''def''"
proof -
  let ?text = "''abc'' @ newline # ''def''"
  have chunks: "split_message 15 ?text = [''abc'', ''def'']"
    by code_simp
  have "[] \<notin> set (split_lines ?text)"
    by code_simp
  then have h: "[] \<notin> set (split_lines ?text) \<or> int (length ?text) \<le> 15 - 10"
    by simp
  from split_message_chunks[of ?text 15] h
  have rt: "join_lines (split_message 15 ?text) = ?text"
    and gr: "successively (overflows (15 - 10)) (split_message 15 ?text)"
    by blast+
  from gr have "overflows (15 - 10) ''abc'' ''def''"
    unfolding chunks by simp
  with chunks rt show ?thesis by simp
qed

text \<open>
  Two texts on which the round trip and the length bound do not hold, with
  \<open>max_chars_per_post = 15\<close>, so \<open>max_len = 5\<close>: the text \<open>"abcde\\n\\nfg"\<close>, whose lines
  all fit, comes back as \<open>["abcde", "fg"]\<close>, and joining these loses the empty line; and
  the single line \<open>"abcdefgh"\<close> is one chunk of 8 characters.
\<close>

theorem split_message_counterexample:
  "split_message 15 (''abcde'' @ [newline, newline] @ ''fg'') = [''abcde'', ''fg''] \<and>
   join_lines (split_message 15 (''abcde'' @ [newline, newline] @ ''fg''))
     \<noteq> ''abcde'' @ [newline, newline] @ ''fg'' \<and>
   split_message 15 ''abcdefgh'' = [''abcdefgh''] \<and>
   \<not> int (length ''abcdefgh'') \<le> 15 - 10"
proof -
  have 1: "split_message 15 (''abcde'' @ [newline, newline] @ ''fg'') = [''abcde'', ''fg'']"
    by code_simp
  have 2: "join_lines [''abcde'', ''fg''] \<noteq> ''abcde'' @ [newline, newline] @ ''fg''"
    by (simp add: newline_def)
  have 3: "split_message 15 ''abcdefgh'' = [''abcdefgh'']"
    by code_simp
  from 1 2 3 show ?thesis by simp
qed

section \<open>Properties of the event stream client\<close>

subsection \<open>Reconnect backoff\<close>

lemma backoff_double: "min (min (2 ^ j) 60 * 2) (60::real) = min (2 ^ Suc j) 60"
  by (simp add: min_def)

lemma map_backoff_shift:
  "map (\<lambda>k. min (2 ^ (j + k)) (60::real)) [0..<Suc n]
     = min (2 ^ j) 60 # map (\<lambda>k. min (2 ^ (Suc j + k)) 60) [0..<n]"
proof -
  have "[0..<Suc n] = 0 # map Suc [0..<n]"
    by (simp add: upt_conv_Cons map_Suc_upt del: upt_Suc)
  then show ?thesis by (simp add: comp_def del: upt_Suc)
qed

lemma failed_attempts:
  "w_running c \<Longrightarrow> \<not> w_connected c \<Longrightarrow> w_max_reconnect_delay c = 60 \<Longrightarrow>
   w_reconnect_delay c = min (2 ^ j) 60 \<Longrightarrow>
     reconnect_loop c (replicate n (Attempt False) @ rest) =
       (case reconnect_loop (c\<lparr>w_reconnect_delay := min (2 ^ (j + n)) 60\<rparr>) rest of
          (delays, r) \<Rightarrow> (map (\<lambda>k. min (2 ^ (j + k)) 60) [0..<n] @ delays, r))"
proof (induction n arbitrary: c j)
  case 0
  then have "c\<lparr>w_reconnect_delay := min (2 ^ j) 60\<rparr> = c" by (cases c) simp
  then show ?case by (simp split: prod.splits)
next
  case (Suc n)
  let ?c = "c\<lparr>w_reconnect_delay := min (2 ^ Suc j) 60\<rparr>"
  have step: "reconnect_loop c (Attempt False # replicate n (Attempt False) @ rest) =
       (case reconnect_loop ?c (replicate n (Attempt False) @ rest) of
          (delays, r) \<Rightarrow> (min (2 ^ j) 60 # delays, r))"
    using Suc.prems by (simp add: connect_def backoff_double)
  have ih: "reconnect_loop ?c (replicate n (Attempt False) @ rest) =
       (case reconnect_loop (?c\<lparr>w_reconnect_delay := min (2 ^ (Suc j + n)) 60\<rparr>) rest of
          (delays, r) \<Rightarrow> (map (\<lambda>k. min (2 ^ (Suc j + k)) 60) [0..<n] @ delays, r))"
    using Suc.prems by (intro Suc.IH) simp_all
  show ?case
    unfolding map_backoff_shift using step ih by (simp split: prod.splits)
qed

text \<open>
  C7. From the state in which the loop is started (\<open>_running\<close> set, not connected,
  delay \<open>1\<close>, cap \<open>60\<close>): while \<open>n\<close> attempts in a row fail, the loop sleeps
  \<open>min (2 ^ k) 60\<close> seconds before attempt \<open>k\<close>, for \<open>k = 0, ..., n - 1\<close>, that is
  1, 2, 4, 8, 16, 32, 60, 60, ..., its next delay is \<open>min (2 ^ n) 60\<close> and it keeps
  waiting; when the attempt after \<open>n\<close> failures succeeds, the loop ends with the delay
  back at \<open>1\<close>, connected, and the receive loop started. \<open>start\<close> sets the delay to \<open>1\<close>
  and starts the receive loop on success, the reconnect loop on failure.
\<close>

theorem reconnect_backoff:
  "reconnect_loop
      (c\<lparr>w_running := True, w_connected := False, w_reconnect_delay := 1,
         w_max_reconnect_delay := 60\<rparr>)
      (replicate n (Attempt False))
     = (map (\<lambda>k. min (2 ^ k) 60) [0..<n], StillWaiting,
        c\<lparr>w_running := True, w_connected := False, w_reconnect_delay := min (2 ^ n) 60,
          w_max_reconnect_delay := 60\<rparr>) \<and>
   reconnect_loop
      (c\<lparr>w_running := True, w_connected := False, w_reconnect_delay := 1,
         w_max_reconnect_delay := 60\<rparr>)
      (replicate n (Attempt False) @ Attempt True # rest)
     = (map (\<lambda>k. min (2 ^ k) 60) [0..<Suc n], StartedReceiveLoop,
        c\<lparr>w_running := True, w_connected := True, w_reconnect_delay := 1,
          w_max_reconnect_delay := 60\<rparr>) \<and>
   w_reconnect_delay (snd (start c ok)) = 1 \<and> w_running (snd (start c ok)) \<and>
   snd (fst (start c ok)) = (if ok then ReceiveLoop else ReconnectLoop)"
proof -
  let ?c = "c\<lparr>w_running := True, w_connected := False, w_reconnect_delay := 1,
         w_max_reconnect_delay := 60\<rparr>"
  have pre: "w_running ?c" "\<not> w_connected ?c" "w_max_reconnect_delay ?c = 60"
    "w_reconnect_delay ?c = min (2 ^ 0) 60"
    by simp_all
  have 1: "reconnect_loop ?c (replicate n (Attempt False))
     = (map (\<lambda>k. min (2 ^ k) 60) [0..<n], StillWaiting,
        c\<lparr>w_running := True, w_connected := False, w_reconnect_delay := min (2 ^ n) 60,
          w_max_reconnect_delay := 60\<rparr>)"
    using failed_attempts[OF pre, of n "[]"] by simp
  have 2: "reconnect_loop ?c (replicate n (Attempt False) @ Attempt True # rest)
     = (map (\<lambda>k. min (2 ^ k) 60) [0..<Suc n], StartedReceiveLoop,
        c\<lparr>w_running := True, w_connected := True, w_reconnect_delay := 1,
          w_max_reconnect_delay := 60\<rparr>)"
    using failed_attempts[OF pre, of n "Attempt True # rest"] by (simp add: connect_def)
  have 3: "w_reconnect_delay (snd (start c ok)) = 1 \<and> w_running (snd (start c ok)) \<and>
   snd (fst (start c ok)) = (if ok then ReceiveLoop else ReconnectLoop)"
    by (simp add: start_def connect_def Let_def)
  from 1 2 3 show ?thesis by blast
qed

theorem reconnect_backoff_witness:
  "fst (reconnect_loop (snd (start WebSocketLogClient False)) (replicate 8 (Attempt False)))
     = [1, 2, 4, 8, 16, 32, 60, 60] \<and>
   reconnect_loop (snd (start WebSocketLogClient False))
       (replicate 7 (Attempt False) @ [Attempt True])
     = ([1, 2, 4, 8, 16, 32, 60, 60], StartedReceiveLoop,
        \<lparr>w_running = True, w_connected = True, w_reconnect_delay = 1,
         w_max_reconnect_delay = 60\<rparr>)"
proof -
  have c: "snd (start WebSocketLogClient False)
      = WebSocketLogClient\<lparr>w_running := True, w_connected := False, w_reconnect_delay := 1,
         w_max_reconnect_delay := 60\<rparr>"
    by (simp add: start_def connect_def WebSocketLogClient_def Let_def)
  from reconnect_backoff[of WebSocketLogClient 8] reconnect_backoff[of WebSocketLogClient 7 "[]"]
  show ?thesis
    unfolding c by (simp add: WebSocketLogClient_def upt_rec numeral_eq_Suc)
qed

subsection \<open>Log extraction\<close>

lemma probe_none:
  "\<forall>k \<in> set ks. \<forall>t. map_of d k \<noteq> Some (JStr t) \<Longrightarrow> probe ks d = None"
  by (induction ks) (auto split: option.splits json.splits)

lemma probe_first:
  "i < length ks \<Longrightarrow> map_of d (ks ! i) = Some (JStr text) \<Longrightarrow>
   \<forall>j<i. \<forall>t. map_of d (ks ! j) \<noteq> Some (JStr t) \<Longrightarrow> probe ks d = Some text"
proof (induction ks arbitrary: i)
  case Nil
  then show ?case by simp
next
  case (Cons k ks)
  show ?case
  proof (cases i)
    case 0
    with Cons.prems show ?thesis by simp
  next
    case (Suc n)
    with Cons.prems(3) have "\<forall>t. map_of d k \<noteq> Some (JStr t)" by auto
    then have skip: "probe (k # ks) d = probe ks d"
      by (auto split: option.splits json.splits)
    have "\<forall>j<n. \<forall>t. map_of d (ks ! j) \<noteq> Some (JStr t)"
      using Cons.prems(3) Suc by auto
    with Cons.IH[of n] Cons.prems(1,2) Suc skip show ?thesis by simp
  qed
qed

text \<open>
  C8. \<open>_extract_log_line\<close> returns a string unchanged; for a \<open>dict\<close>, the value of the
  first key of \<open>message, msg, log, line, text, data\<close> that is present with a string
  value; \<open>json.dumps\<close> of the \<open>dict\<close> when no such key has a string value; and the empty
  string for \<open>None\<close>. An empty line is not handed to the callback: a console message
  whose data is null calls nothing. A message that parses to
  \<open>{"type": "console", "data": "Server started"}\<close>, with a callback set, calls it once,
  with \<open>Server started\<close>.
\<close>

theorem extract_log_line_rule:
  \<open>extract_log_line lib (JStr text) = text \<and>
   log_keys = [''message'', ''msg'', ''log'', ''line'', ''text'', ''data''] \<and>
   (\<forall>i t. i < length log_keys \<and> map_of d (log_keys ! i) = Some (JStr t) \<and>
           (\<forall>j<i. \<forall>u. map_of d (log_keys ! j) \<noteq> Some (JStr u))
      \<longrightarrow> extract_log_line lib (JDict d) = t) \<and>
   ((\<forall>k \<in> set log_keys. \<forall>u. map_of d k \<noteq> Some (JStr u))
      \<longrightarrow> extract_log_line lib (JDict d) = dumps lib (JDict d)) \<and>
   extract_log_line lib JNull = [] \<and>
   deliver lib has_callback JNull = [] \<and>
   (loads lib raw = Some (JDict message) \<and> map_of message ''type'' = Some (JStr ''console'') \<and>
    map_of message ''data'' = Some JNull
      \<longrightarrow> process_message lib has_callback raw = Inr []) \<and>
   (loads lib ''{"type":"console","data":"Server started"}''
        = Some (JDict [(''type'', JStr ''console''), (''data'', JStr ''Server started'')])
      \<longrightarrow> process_message lib True ''{"type":"console","data":"Server started"}''
            = Inr [''Server started''])\<close>
proof -
  have 1: "extract_log_line lib (JStr text) = text"
    by (simp add: extract_log_line_def)
  have 2: "log_keys = [''message'', ''msg'', ''log'', ''line'', ''text'', ''data'']"
    by (simp add: log_keys_def)
  have 3: "\<forall>i t. i < length log_keys \<and> map_of d (log_keys ! i) = Some (JStr t) \<and>
           (\<forall>j<i. \<forall>u. map_of d (log_keys ! j) \<noteq> Some (JStr u))
      \<longrightarrow> extract_log_line lib (JDict d) = t"
    by (auto simp: extract_log_line_def dest!: probe_first[where d = d])
  have 4: "(\<forall>k \<in> set log_keys. \<forall>u. map_of d k \<noteq> Some (JStr u))
      \<longrightarrow> extract_log_line lib (JDict d) = dumps lib (JDict d)"
    by (auto simp: extract_log_line_def dest!: probe_none[where d = d])
  have 5: "extract_log_line lib JNull = []"
    by (simp add: extract_log_line_def)
  then have 6: "deliver lib has_callback JNull = []"
    by (simp add: deliver_def)
  have 7: "loads lib raw = Some (JDict message) \<and> map_of message ''type'' = Some (JStr ''console'') \<and>
    map_of message ''data'' = Some JNull
      \<longrightarrow> process_message lib has_callback raw = Inr []"
    using 6 by (simp add: process_message_def dict_get_def)
  have 8: \<open>loads lib ''{"type":"console","data":"Server started"}''
        = Some (JDict [(''type'', JStr ''console''), (''data'', JStr ''Server started'')])
      \<longrightarrow> process_message lib True ''{"type":"console","data":"Server started"}''
            = Inr [''Server started'']\<close>
    by (simp add: process_message_def dict_get_def deliver_def extract_log_line_def)
  from 1 2 3 4 5 6 7 8 show ?thesis by blast
qed

theorem extract_log_line_rule_witness:
  \<open>process_message
      \<lparr>loads = (\<lambda>s. if s = ''{"type":"console","data":"Server started"}''
                     then Some (JDict [(''type'', JStr ''console''), (''data'', JStr ''Server started'')])
                     else None),
       dumps = (\<lambda>_. ''{}''), str = (\<lambda>_. [])\<rparr>
      True ''{"type":"console","data":"Server started"}'' = Inr [''Server started''] \<and>
   extract_log_line
      \<lparr>loads = (\<lambda>s. if s = ''{"type":"console","data":"Server started"}''
                     then Some (JDict [(''type'', JStr ''console''), (''data'', JStr ''Server started'')])
                     else None),
       dumps = (\<lambda>_. ''{}''), str = (\<lambda>_. [])\<rparr>
      (JDict [(''message'', JInt 5), (''msg'', JStr ''hello''), (''log'', JStr ''other'')]) = ''hello''\<close>
proof -
  let ?lib = \<open>\<lparr>loads = (\<lambda>s. if s = ''{"type":"console","data":"Server started"}''
                     then Some (JDict [(''type'', JStr ''console''), (''data'', JStr ''Server started'')])
                     else None),
       dumps = (\<lambda>_. ''{}''), str = (\<lambda>_. [])\<rparr>\<close>
  let ?d = "[(''message'', JInt 5), (''msg'', JStr ''hello''), (''log'', JStr ''other'')]"
  note rule = extract_log_line_rule[of ?lib _ ?d]
  have parsed: \<open>loads ?lib ''{"type":"console","data":"Server started"}''
        = Some (JDict [(''type'', JStr ''console''), (''data'', JStr ''Server started'')])\<close>
    by simp
  have a: \<open>process_message ?lib True ''{"type":"console","data":"Server started"}''
      = Inr [''Server started'']\<close>
    using rule[THEN conjunct2, THEN conjunct2, THEN conjunct2, THEN conjunct2, THEN conjunct2,
               THEN conjunct2, THEN conjunct2, THEN mp, OF parsed] .
  have pre: "1 < length log_keys \<and> map_of ?d (log_keys ! 1) = Some (JStr ''hello'') \<and>
           (\<forall>j<1. \<forall>u. map_of ?d (log_keys ! j) \<noteq> Some (JStr u))"
    by (simp add: log_keys_def)
  have b: "extract_log_line ?lib (JDict ?d) = ''hello''"
    using rule[THEN conjunct2, THEN conjunct2, THEN conjunct1, THEN spec, THEN spec, THEN mp, OF pre] .
  from a b show ?thesis by (rule conjI)
qed

section \<open>Properties of the state store and the log pipeline\<close>

subsection \<open>\<open>update_logs\<close>\<close>

lemma update_logs_only_enabled:
  "update_logs m enabled None None =
     \<lparr>state_file = Stored ((fst (state m))\<lparr>logs_enabled := enabled\<rparr>),
      m_state = Some ((fst (state m))\<lparr>logs_enabled := enabled\<rparr>)\<rparr>"
  by (cases m) (auto simp: update_logs_def state_def load_def save_def Let_def split: option.splits stored.splits)

lemma state_after_update_logs:
  "fst (state (update_logs m enabled None None)) = (fst (state m))\<lparr>logs_enabled := enabled\<rparr>"
  by (simp add: update_logs_only_enabled state_def)

subsection \<open>The locked blocks\<close>

lemma unlocked_eq: "\<not> locked (l::alock) \<Longrightarrow> l\<lparr>locked := False\<rparr> = l"
  by (cases l) simp

lemma add_to_buffer_step:
  "\<not> locked (s_buffer_lock s) \<Longrightarrow>
     add_to_buffer log_line s
       = Inr ((), s\<lparr>memory := list_append (s_log_buffer s) log_line (memory s)\<rparr>)"
  by (cases s) (simp add: add_to_buffer_def with_buffer_lock_def lock_acquire_def lock_release_def unlocked_eq)

lemma drain_empty:
  "\<not> locked (s_buffer_lock s) \<Longrightarrow> buffered s = [] \<Longrightarrow> drain s = Inr (None, s)"
  by (cases s) (simp add: drain_def buffered_def with_buffer_lock_def lock_acquire_def lock_release_def unlocked_eq)

lemma drain_nonempty:
  "\<not> locked (s_buffer_lock s) \<Longrightarrow> buffered s \<noteq> [] \<Longrightarrow>
     drain s = Inr (Some (next_ref (memory s)),
                    s\<lparr>memory := list_clear (s_log_buffer s) (snd (list_copy (s_log_buffer s) (memory s)))\<rparr>)"
  by (cases s) (simp add: drain_def buffered_def with_buffer_lock_def lock_acquire_def lock_release_def unlocked_eq list_copy_def)

lemma drained_cells:
  "s_log_buffer s < next_ref (memory s) \<Longrightarrow>
   h = list_clear (s_log_buffer s) (snd (list_copy (s_log_buffer s) (memory s))) \<Longrightarrow>
     cells h (next_ref (memory s)) = buffered s \<and> cells h (s_log_buffer s) = [] \<and>
     next_ref h = Suc (next_ref (memory s)) \<and>
     (\<forall>r. r \<noteq> s_log_buffer s \<and> r \<noteq> next_ref (memory s) \<longrightarrow> cells h r = cells (memory s) r)"
  by (simp add: list_clear_def list_copy_def buffered_def)

lemma new_service_between_steps: "between_steps (LogSyncService max_chars manager)"
  by (simp add: between_steps_def LogSyncService_def list_new_def)

lemma add_to_buffer_between:
  assumes "between_steps s"
  shows "\<exists>s1. add_to_buffer log_line s = Inr ((), s1) \<and> between_steps s1 \<and>
           buffered s1 = buffered s @ [log_line] \<and> s_log_buffer s1 = s_log_buffer s \<and>
           next_ref (memory s1) = next_ref (memory s) \<and>
           (\<forall>r. r \<noteq> s_log_buffer s \<longrightarrow> cells (memory s1) r = cells (memory s) r)"
proof -
  from assms have free: "\<not> locked (s_buffer_lock s)" by (simp add: between_steps_def)
  let ?s1 = "s\<lparr>memory := list_append (s_log_buffer s) log_line (memory s)\<rparr>"
  have "add_to_buffer log_line s = Inr ((), ?s1)" using free by (rule add_to_buffer_step)
  moreover have "between_steps ?s1" using assms by (simp add: between_steps_def list_append_def)
  moreover have "buffered ?s1 = buffered s @ [log_line]" by (simp add: buffered_def list_append_def)
  moreover have "next_ref (memory ?s1) = next_ref (memory s)" by (simp add: list_append_def)
  moreover have "\<forall>r. r \<noteq> s_log_buffer s \<longrightarrow> cells (memory ?s1) r = cells (memory s) r"
    by (simp add: list_append_def)
  ultimately show ?thesis by simp
qed

lemma drain_between:
  assumes "between_steps s"
  shows "\<exists>res s1. drain s = Inr (res, s1) \<and> between_steps s1 \<and> s_log_buffer s1 = s_log_buffer s \<and>
           (buffered s = [] \<longrightarrow> res = None \<and> s1 = s) \<and>
           (buffered s \<noteq> [] \<longrightarrow>
              res = Some (next_ref (memory s)) \<and> buffered s1 = [] \<and>
              cells (memory s1) (next_ref (memory s)) = buffered s \<and>
              next_ref (memory s1) = Suc (next_ref (memory s)) \<and>
              s1 = s\<lparr>memory := memory s1\<rparr> \<and>
              (\<forall>r. r \<noteq> s_log_buffer s \<and> r \<noteq> next_ref (memory s)
                  \<longrightarrow> cells (memory s1) r = cells (memory s) r))"
proof (cases "buffered s = []")
  case True
  with assms show ?thesis by (simp add: between_steps_def drain_empty)
next
  case False
  from assms have free: "\<not> locked (s_buffer_lock s)" and alloc: "s_log_buffer s < next_ref (memory s)"
    by (simp_all add: between_steps_def)
  let ?h = "list_clear (s_log_buffer s) (snd (list_copy (s_log_buffer s) (memory s)))"
  let ?s1 = "s\<lparr>memory := ?h\<rparr>"
  have d: "drain s = Inr (Some (next_ref (memory s)), ?s1)"
    using free False by (rule drain_nonempty)
  note c = drained_cells[OF alloc refl]
  have "between_steps ?s1" using free alloc c by (simp add: between_steps_def)
  moreover have "buffered ?s1 = []" using c by (simp add: buffered_def)
  moreover have "?s1 = s\<lparr>memory := memory ?s1\<rparr>" by simp
  ultimately show ?thesis using d False c by simp
qed

lemma run_buffer_frame:
  "between_steps s \<Longrightarrow>
     \<exists>rs s'. run_buffer s ops = Inr (rs, s') \<and> between_steps s' \<and>
       s_log_buffer s' = s_log_buffer s \<and> next_ref (memory s) \<le> next_ref (memory s') \<and>
       (\<forall>r. r < next_ref (memory s) \<and> r \<noteq> s_log_buffer s
            \<longrightarrow> cells (memory s') r = cells (memory s) r) \<and>
       concat (map (cells (memory s')) rs) @ buffered s' = buffered s @ appended ops \<and>
       [] \<notin> set (map (cells (memory s')) rs) \<and>
       distinct rs \<and> (\<forall>r \<in> set rs. next_ref (memory s) \<le> r)"
proof (induction ops arbitrary: s)
  case Nil
  then show ?case by simp
next
  case (Cons op ops)
  show ?case
  proof (cases op)
    case (Append l)
    from add_to_buffer_between[OF Cons.prems, of l] obtain s1 where
      a: "add_to_buffer l s = Inr ((), s1)" and b: "between_steps s1"
      and buf: "buffered s1 = buffered s @ [l]" and same: "s_log_buffer s1 = s_log_buffer s"
      and nr: "next_ref (memory s1) = next_ref (memory s)"
      and fr: "\<forall>r. r \<noteq> s_log_buffer s \<longrightarrow> cells (memory s1) r = cells (memory s) r"
      by blast
    from Cons.IH[OF b] obtain rs s' where
      r: "run_buffer s1 ops = Inr (rs, s')" and b': "between_steps s'"
      and same': "s_log_buffer s' = s_log_buffer s1"
      and nr': "next_ref (memory s1) \<le> next_ref (memory s')"
      and fr': "\<forall>r. r < next_ref (memory s1) \<and> r \<noteq> s_log_buffer s1
            \<longrightarrow> cells (memory s') r = cells (memory s1) r"
      and part: "concat (map (cells (memory s')) rs) @ buffered s' = buffered s1 @ appended ops"
      and ne: "[] \<notin> set (map (cells (memory s')) rs)"
      and di: "distinct rs" and fresh: "\<forall>r \<in> set rs. next_ref (memory s1) \<le> r"
      by blast
    have "run_buffer s (op # ops) = Inr (rs, s')" using Append a r by simp
    moreover have "\<forall>r. r < next_ref (memory s) \<and> r \<noteq> s_log_buffer s
            \<longrightarrow> cells (memory s') r = cells (memory s) r"
      using fr fr' same nr by simp
    moreover have "concat (map (cells (memory s')) rs) @ buffered s' = buffered s @ appended (op # ops)"
      using part buf Append by simp
    ultimately show ?thesis using b' same same' nr nr' ne di fresh by simp
  next
    case Drain
    from drain_between[OF Cons.prems] obtain res s1 where
      d: "drain s = Inr (res, s1)" and b: "between_steps s1"
      and same: "s_log_buffer s1 = s_log_buffer s"
      and emp: "buffered s = [] \<longrightarrow> res = None \<and> s1 = s"
      and non: "buffered s \<noteq> [] \<longrightarrow>
              res = Some (next_ref (memory s)) \<and> buffered s1 = [] \<and>
              cells (memory s1) (next_ref (memory s)) = buffered s \<and>
              next_ref (memory s1) = Suc (next_ref (memory s)) \<and>
              s1 = s\<lparr>memory := memory s1\<rparr> \<and>
              (\<forall>r. r \<noteq> s_log_buffer s \<and> r \<noteq> next_ref (memory s)
                  \<longrightarrow> cells (memory s1) r = cells (memory s) r)"
      by blast
    from Cons.IH[OF b] obtain rs s' where
      r: "run_buffer s1 ops = Inr (rs, s')" and b': "between_steps s'"
      and same': "s_log_buffer s' = s_log_buffer s1"
      and nr': "next_ref (memory s1) \<le> next_ref (memory s')"
      and fr': "\<forall>r. r < next_ref (memory s1) \<and> r \<noteq> s_log_buffer s1
            \<longrightarrow> cells (memory s') r = cells (memory s1) r"
      and part: "concat (map (cells (memory s')) rs) @ buffered s' = buffered s1 @ appended ops"
      and ne: "[] \<notin> set (map (cells (memory s')) rs)"
      and di: "distinct rs" and fresh: "\<forall>r \<in> set rs. next_ref (memory s1) \<le> r"
      by blast
    show ?thesis
    proof (cases "buffered s = []")
      case True
      with emp have "res = None" "s1 = s" by simp_all
      then have "run_buffer s (op # ops) = Inr (rs, s')" using Drain d r by simp
      then show ?thesis using b' same' nr' fr' part ne di fresh \<open>s1 = s\<close> Drain by simp
    next
      case False
      let ?r0 = "next_ref (memory s)"
      from non False have res: "res = Some ?r0" and e1: "buffered s1 = []"
        and c0: "cells (memory s1) ?r0 = buffered s"
        and n1: "next_ref (memory s1) = Suc ?r0"
        and f1: "\<forall>r. r \<noteq> s_log_buffer s \<and> r \<noteq> ?r0 \<longrightarrow> cells (memory s1) r = cells (memory s) r"
        by simp_all
      have alloc: "s_log_buffer s < ?r0" using Cons.prems by (simp add: between_steps_def)
      have keep: "cells (memory s') ?r0 = buffered s"
        using fr' n1 same alloc c0 by simp
      have run: "run_buffer s (op # ops) = Inr (?r0 # rs, s')" using Drain d r res by simp
      have fr: "\<forall>r. r < ?r0 \<and> r \<noteq> s_log_buffer s \<longrightarrow> cells (memory s') r = cells (memory s) r"
        using fr' f1 n1 same by simp
      have part': "concat (map (cells (memory s')) (?r0 # rs)) @ buffered s'
                     = buffered s @ appended (op # ops)"
        using part keep e1 Drain by simp
      have ne': "[] \<notin> set (map (cells (memory s')) (?r0 # rs))"
        using ne keep False by auto
      have di': "distinct (?r0 # rs)" using di fresh n1 by auto
      have fresh': "\<forall>r \<in> set (?r0 # rs). ?r0 \<le> r" using fresh n1 by auto
      from run b' same same' n1 nr' fr part' ne' di' fresh' show ?thesis by simp
    qed
  qed
qed

text \<open>
  Each drain hands over exactly the lines pending when it runs: the drained lists of a
  run, read at its end, are the batches the list of steps is due.
\<close>

lemma run_buffer_batches:
  "between_steps s \<Longrightarrow> run_buffer s ops = Inr (rs, s') \<Longrightarrow>
     map (cells (memory s')) rs = batches (buffered s) ops \<and>
     buffered s' = still_pending (buffered s) ops"
proof (induction ops arbitrary: s rs)
  case Nil
  then show ?case by simp
next
  case (Cons op ops)
  show ?case
  proof (cases op)
    case (Append l)
    from add_to_buffer_between[OF Cons.prems(1), of l] obtain s1 where
      a: "add_to_buffer l s = Inr ((), s1)" and b: "between_steps s1"
      and buf: "buffered s1 = buffered s @ [l]"
      by blast
    from Cons.prems(2) Append a have r: "run_buffer s1 ops = Inr (rs, s')" by simp
    from Cons.IH[OF b r] buf Append show ?thesis by simp
  next
    case Drain
    from drain_between[OF Cons.prems(1)] obtain res s1 where
      d: "drain s = Inr (res, s1)" and b: "between_steps s1"
      and same: "s_log_buffer s1 = s_log_buffer s"
      and emp: "buffered s = [] \<longrightarrow> res = None \<and> s1 = s"
      and non: "buffered s \<noteq> [] \<longrightarrow>
              res = Some (next_ref (memory s)) \<and> buffered s1 = [] \<and>
              cells (memory s1) (next_ref (memory s)) = buffered s \<and>
              next_ref (memory s1) = Suc (next_ref (memory s)) \<and>
              s1 = s\<lparr>memory := memory s1\<rparr> \<and>
              (\<forall>r. r \<noteq> s_log_buffer s \<and> r \<noteq> next_ref (memory s)
                  \<longrightarrow> cells (memory s1) r = cells (memory s) r)"
      by blast
    show ?thesis
    proof (cases "buffered s = []")
      case True
      with emp have "res = None" "s1 = s" by simp_all
      with Cons.prems(2) Drain d have r: "run_buffer s ops = Inr (rs, s')" by simp
      from Cons.IH[OF Cons.prems(1) r] True Drain show ?thesis by simp
    next
      case False
      let ?r0 = "next_ref (memory s)"
      from non False have res: "res = Some ?r0" and e1: "buffered s1 = []"
        and c0: "cells (memory s1) ?r0 = buffered s"
        and n1: "next_ref (memory s1) = Suc ?r0"
        by simp_all
      from run_buffer_frame[OF b, of ops] obtain rs1 s2 where
        r1: "run_buffer s1 ops = Inr (rs1, s2)"
        and fr: "\<forall>r. r < next_ref (memory s1) \<and> r \<noteq> s_log_buffer s1
            \<longrightarrow> cells (memory s2) r = cells (memory s1) r"
        by blast
      from Cons.prems(2) Drain d res r1 have rs: "rs = ?r0 # rs1" and s2: "s2 = s'" by simp_all
      have alloc: "s_log_buffer s < ?r0" using Cons.prems(1) by (simp add: between_steps_def)
      have keep: "cells (memory s') ?r0 = buffered s"
        using fr n1 same alloc c0 s2 by simp
      from r1 s2 have r: "run_buffer s1 ops = Inr (rs1, s')" by simp
      from Cons.IH[OF b r] e1 keep rs False Drain show ?thesis by simp
    qed
  qed
qed

subsection \<open>One flush\<close>

lemma posts_to_targets: "posts_to thread es \<Longrightarrow> set (send_targets es) \<subseteq> {thread}"
  by (induction es rule: send_targets.induct) (auto simp: posts_to_def)

lemma send_targets_append [simp]: "send_targets (es @ es') = send_targets es @ send_targets es'"
  by (induction es rule: send_targets.induct) auto

lemma send_chunks_posts: "posts_to thread (fst (send_chunks thread outcome i chunks))"
proof (induction chunks arbitrary: i)
  case Nil
  show ?case by (simp add: posts_to_def)
next
  case (Cons chunk rest)
  from Cons.IH[of "Suc i"] show ?case
    by (cases "outcome i") (auto simp: posts_to_def and_then_def)
qed

lemma post_logs_posts: "posts_to thread (fst (post_logs s env thread logs))"
  by (simp add: post_logs_def send_chunks_posts)

lemma flush_buffer_empty:
  "between_steps s \<Longrightarrow> buffered s = [] \<Longrightarrow> flush_buffer s env = Inr ([], Returned, s)"
  by (simp add: flush_buffer_def between_steps_def drain_empty)

lemma flush_buffer_nonempty:
  assumes "between_steps s" "buffered s \<noteq> []"
  shows "\<exists>s1. flush_buffer s env = Inr (send_phase s1 env (buffered s)) \<and>
              s1 = s\<lparr>memory := memory s1\<rparr> \<and> between_steps s1 \<and> buffered s1 = []"
proof -
  from drain_between[OF assms(1)] assms(2) obtain s1 where
    d: "drain s = Inr (Some (next_ref (memory s)), s1)" and b: "between_steps s1"
    and e: "buffered s1 = []" and c: "cells (memory s1) (next_ref (memory s)) = buffered s"
    and u: "s1 = s\<lparr>memory := memory s1\<rparr>"
    by auto
  have "flush_buffer s env = Inr (send_phase s1 env (buffered s))"
    using d c by (simp add: flush_buffer_def)
  with b e u show ?thesis by blast
qed

lemma send_phase_frame:
  "send_phase s env logs = (es, x, s') \<Longrightarrow>
     memory s' = memory s \<and> s_log_buffer s' = s_log_buffer s \<and> s_buffer_lock s' = s_buffer_lock s \<and>
     max_chars_per_post s' = max_chars_per_post s \<and> s_running s' = s_running s"
  by (auto simp: send_phase_def Let_def split: option.splits prod.splits if_splits)

lemma send_phase_no_thread:
  "s_current_thread s = None \<Longrightarrow> send_phase s env logs = ([], Returned, s)"
  by (simp add: send_phase_def)

lemma send_phase_same_date:
  "s_current_thread s = Some thread \<Longrightarrow> s_current_date s = Some (today env) \<Longrightarrow>
     send_phase s env logs = (fst (post_logs s env thread logs), snd (post_logs s env thread logs), s)"
  by (simp add: send_phase_def Let_def split: prod.splits)

lemma send_phase_rotation_fails:
  "s_current_thread s = Some thread \<Longrightarrow> s_current_date s \<noteq> Some (today env) \<Longrightarrow> created env = None \<Longrightarrow>
     send_phase s env logs =
       ([CreateThread (today env)], Returned,
        s\<lparr>s_current_date := Some (today env), s_current_thread := None\<rparr>)"
  by (auto simp: send_phase_def Let_def)

lemma update_logs_rotation:
  "update_logs m True (Some t) (Some d) =
     \<lparr>state_file = Stored ((fst (state m))\<lparr>logs_enabled := True, current_thread_id := Some t,
                                         current_date := Some d\<rparr>),
      m_state = Some ((fst (state m))\<lparr>logs_enabled := True, current_thread_id := Some t,
                                     current_date := Some d\<rparr>)\<rparr>"
  by (cases m) (auto simp: update_logs_def state_def load_def save_def Let_def split: option.splits stored.splits)

lemma send_phase_rotation:
  assumes "s_current_thread s = Some thread" "s_current_date s \<noteq> Some (today env)"
    "created env = Some new_thread"
  shows "\<exists>posts x s'. 
     send_phase s env logs =
       (CreateThread (today env) # SaveState (state_file (s_state s')) # posts, x, s') \<and>
     posts_to new_thread posts \<and>
     s' = s\<lparr>s_current_date := Some (today env), s_current_thread := Some new_thread,
            s_state := update_logs (s_state s) True (Some new_thread) (Some (today env))\<rparr>"
proof -
  let ?s' = "s\<lparr>s_current_date := Some (today env), s_current_thread := Some new_thread,
            s_state := update_logs (s_state s) True (Some new_thread) (Some (today env))\<rparr>"
  obtain posts x where p: "post_logs ?s' env new_thread logs = (posts, x)"
    by (cases "post_logs ?s' env new_thread logs") auto
  have "posts_to new_thread posts" using post_logs_posts[of new_thread ?s' env logs] p by simp
  moreover have "send_phase s env logs =
       (CreateThread (today env) # SaveState (state_file (s_state ?s')) # posts, x, ?s')"
    using assms p by (auto simp: send_phase_def Let_def)
  ultimately show ?thesis by blast
qed

lemma flush_buffer_no_thread:
  assumes "between_steps s" "buffered s \<noteq> []" "s_current_thread s = None"
  shows "\<exists>s'. flush_buffer s env = Inr ([], Returned, s') \<and> between_steps s' \<and> buffered s' = [] \<and>
              s_current_thread s' = None \<and> s_current_date s' = s_current_date s \<and>
              s_state s' = s_state s"
proof -
  from flush_buffer_nonempty[OF assms(1,2), of env] obtain s1 where
    f: "flush_buffer s env = Inr (send_phase s1 env (buffered s))"
    and u: "s1 = s\<lparr>memory := memory s1\<rparr>" and e: "buffered s1 = []" and b: "between_steps s1"
    by blast
  have t: "s_current_thread s1 = None" and d: "s_current_date s1 = s_current_date s"
    and st: "s_state s1 = s_state s"
    using assms(3) by (subst u, simp)+
  from f t have "flush_buffer s env = Inr ([], Returned, s1)" by (simp add: send_phase_no_thread)
  with e b t d st show ?thesis by blast
qed

lemma flush_buffer_keeps_thread:
  assumes "between_steps s" "s_current_thread s = Some thread" "s_current_date s = Some (today env)"
  shows "\<exists>es x s'. flush_buffer s env = Inr (es, x, s') \<and> posts_to thread es \<and> between_steps s' \<and>
           s_current_thread s' = Some thread \<and> s_current_date s' = s_current_date s \<and>
           s_state s' = s_state s"
proof (cases "buffered s = []")
  case True
  with assms show ?thesis by (simp add: flush_buffer_empty posts_to_def)
next
  case False
  from flush_buffer_nonempty[OF assms(1) False, of env] obtain s1 where
    f: "flush_buffer s env = Inr (send_phase s1 env (buffered s))"
    and u: "s1 = s\<lparr>memory := memory s1\<rparr>" and b: "between_steps s1"
    by blast
  have t: "s_current_thread s1 = Some thread" and d: "s_current_date s1 = Some (today env)"
    and st: "s_state s1 = s_state s"
    using assms(2,3) by (subst u, simp)+
  have "send_phase s1 env (buffered s) =
          (fst (post_logs s1 env thread (buffered s)), snd (post_logs s1 env thread (buffered s)), s1)"
    using t d by (rule send_phase_same_date)
  with f b t d st assms(3) post_logs_posts[of thread s1 env "buffered s"] show ?thesis by simp
qed

lemma run_service_same_date:
  "between_steps s \<Longrightarrow> s_current_thread s = Some thread \<Longrightarrow> s_current_date s = Some d \<Longrightarrow>
   set (flush_dates ops) \<subseteq> {d} \<Longrightarrow>
     \<exists>es s'. run_service s ops = Inr (es, s') \<and> posts_to thread es \<and>
       s_current_thread s' = Some thread \<and> s_current_date s' = Some d \<and> s_state s' = s_state s"
proof (induction ops arbitrary: s)
  case Nil
  then show ?case by (simp add: posts_to_def)
next
  case (Cons op ops)
  show ?case
  proof (cases op)
    case (Log l)
    from add_to_buffer_between[OF Cons.prems(1), of l] obtain s1 where
      a: "add_to_buffer l s = Inr ((), s1)" and b: "between_steps s1" by blast
    from a Cons.prems(1) have s1: "s1 = s\<lparr>memory := memory s1\<rparr>"
      by (auto simp: add_to_buffer_step between_steps_def)
    have t: "s_current_thread s1 = Some thread" and dd: "s_current_date s1 = Some d"
      and st: "s_state s1 = s_state s"
      using Cons.prems(2,3) by (subst s1, simp)+
    from Cons.IH[OF b t dd] Cons.prems(4) Log obtain es s' where
      "run_service s1 ops = Inr (es, s')" "posts_to thread es"
      "s_current_thread s' = Some thread" "s_current_date s' = Some d" "s_state s' = s_state s1"
      by auto
    with a Log st show ?thesis by simp
  next
    case (Flush env)
    with Cons.prems(4) have td: "today env = d" by simp
    from flush_buffer_keeps_thread[OF Cons.prems(1,2), of env] Cons.prems(3) td obtain es x s1 where
      f: "flush_buffer s env = Inr (es, x, s1)" and p: "posts_to thread es" and b: "between_steps s1"
      and t: "s_current_thread s1 = Some thread" and dd: "s_current_date s1 = Some d"
      and st: "s_state s1 = s_state s"
      by auto
    from Cons.IH[OF b t dd] Cons.prems(4) Flush obtain es' s' where
      r: "run_service s1 ops = Inr (es', s')" and p': "posts_to thread es'"
      and rest: "s_current_thread s' = Some thread" "s_current_date s' = Some d" "s_state s' = s_state s1"
      by auto
    have "posts_to thread (es @ es')" using p p' by (auto simp: posts_to_def)
    with f r rest st Flush show ?thesis by simp
  qed
qed

subsection \<open>Rotation\<close>

text \<open>
  C5, as the code has it. For a flush that starts between two steps of the event loop:
  with an empty buffer it is a no-op. With lines buffered and no destination thread set,
  it drains the buffer and does nothing else. With lines buffered, a destination thread
  set and a resolved date that differs from the recorded date, it asks for a new thread:
  when that fails, nothing is posted or saved, the drained lines are gone and no thread
  is set any more; when it gives a thread, the state file is written with the new thread
  id and date (and logs enabled) before anything is sent, the rest of the flush only
  sends to the new thread, and the service records that thread and date. From a service
  with a thread and a date recorded, every run of appends and flushes whose flushes all
  resolve that date sends only to that thread.
\<close>

theorem flush_rotation:
  "between_steps s \<longrightarrow>
     (buffered s = [] \<longrightarrow> flush_buffer s env = Inr ([], Returned, s)) \<and>
     (buffered s \<noteq> [] \<and> s_current_thread s = None \<longrightarrow>
        (\<exists>s'. flush_buffer s env = Inr ([], Returned, s') \<and> buffered s' = [] \<and>
              s_current_thread s' = None \<and> s_current_date s' = s_current_date s \<and>
              s_state s' = s_state s)) \<and>
     (buffered s \<noteq> [] \<and> s_current_thread s = Some old \<and> s_current_date s \<noteq> Some (today env) \<longrightarrow>
        (\<exists>es x s'. flush_buffer s env = Inr (es, x, s') \<and> between_steps s' \<and> buffered s' = [] \<and>
           s_current_date s' = Some (today env) \<and> s_current_thread s' = created env \<and>
           (created env = None \<longrightarrow>
              es = [CreateThread (today env)] \<and> x = Returned \<and> s_state s' = s_state s) \<and>
           (\<forall>new. created env = Some new \<longrightarrow>
              (\<exists>posts. es = CreateThread (today env) # SaveState (state_file (s_state s')) # posts \<and>
                       posts_to new posts) \<and>
              s_state s' =
                \<lparr>state_file = Stored ((fst (state (s_state s)))
                                \<lparr>logs_enabled := True, current_thread_id := Some new,
                                  current_date := Some (today env)\<rparr>),
                 m_state = Some ((fst (state (s_state s)))
                                \<lparr>logs_enabled := True, current_thread_id := Some new,
                                  current_date := Some (today env)\<rparr>)\<rparr>))) \<and>
     (s_current_thread s = Some thread \<and> s_current_date s = Some d \<and> set (flush_dates ops) \<subseteq> {d} \<longrightarrow>
        (\<exists>es s'. run_service s ops = Inr (es, s') \<and> posts_to thread es \<and>
           set (send_targets es) \<subseteq> {thread} \<and>
           s_current_thread s' = Some thread \<and> s_current_date s' = Some d))"
proof (intro impI conjI)
  assume b: "between_steps s"
  {
    assume "buffered s = []"
    with b show "flush_buffer s env = Inr ([], Returned, s)" by (rule flush_buffer_empty)
  next
    assume a: "buffered s \<noteq> [] \<and> s_current_thread s = None"
    then have ne: "buffered s \<noteq> []" and nt: "s_current_thread s = None" by simp_all
    from flush_buffer_no_thread[OF b ne nt, of env]
    show "\<exists>s'. flush_buffer s env = Inr ([], Returned, s') \<and> buffered s' = [] \<and>
              s_current_thread s' = None \<and> s_current_date s' = s_current_date s \<and>
              s_state s' = s_state s"
      by blast
  next
    assume a: "buffered s \<noteq> [] \<and> s_current_thread s = Some old \<and> s_current_date s \<noteq> Some (today env)"
    from flush_buffer_nonempty[OF b, of env] a obtain s1 where
      f: "flush_buffer s env = Inr (send_phase s1 env (buffered s))"
      and u: "s1 = s\<lparr>memory := memory s1\<rparr>" and e: "buffered s1 = []" and b1: "between_steps s1"
      by blast
    have t: "s_current_thread s1 = Some old" and d: "s_current_date s1 \<noteq> Some (today env)"
      and st: "s_state s1 = s_state s"
      using a by (subst u, simp)+
    show "\<exists>es x s'. flush_buffer s env = Inr (es, x, s') \<and> between_steps s' \<and> buffered s' = [] \<and>
           s_current_date s' = Some (today env) \<and> s_current_thread s' = created env \<and>
           (created env = None \<longrightarrow>
              es = [CreateThread (today env)] \<and> x = Returned \<and> s_state s' = s_state s) \<and>
           (\<forall>new. created env = Some new \<longrightarrow>
              (\<exists>posts. es = CreateThread (today env) # SaveState (state_file (s_state s')) # posts \<and>
                       posts_to new posts) \<and>
              s_state s' =
                \<lparr>state_file = Stored ((fst (state (s_state s)))
                                \<lparr>logs_enabled := True, current_thread_id := Some new,
                                  current_date := Some (today env)\<rparr>),
                 m_state = Some ((fst (state (s_state s)))
                                \<lparr>logs_enabled := True, current_thread_id := Some new,
                                  current_date := Some (today env)\<rparr>)\<rparr>)"
    proof (cases "created env")
      case None
      let ?s' = "s1\<lparr>s_current_date := Some (today env), s_current_thread := None\<rparr>"
      have "send_phase s1 env (buffered s) = ([CreateThread (today env)], Returned, ?s')"
        using t d None by (rule send_phase_rotation_fails)
      with f have "flush_buffer s env = Inr ([CreateThread (today env)], Returned, ?s')" by simp
      moreover have "between_steps ?s'" using b1 by (simp add: between_steps_def)
      moreover have "buffered ?s' = []" using e by (simp add: buffered_def)
      ultimately show ?thesis using None st by auto
    next
      case (Some new)
      from send_phase_rotation[OF t d Some, of "buffered s"] obtain posts x s' where
        sp: "send_phase s1 env (buffered s) =
          (CreateThread (today env) # SaveState (state_file (s_state s')) # posts, x, s')"
        and p: "posts_to new posts"
        and s': "s' = s1\<lparr>s_current_date := Some (today env), s_current_thread := Some new,
            s_state := update_logs (s_state s1) True (Some new) (Some (today env))\<rparr>"
        by blast
      have "between_steps s'" using b1 by (subst s') (simp add: between_steps_def)
      moreover have "buffered s' = []" using e by (subst s') (simp add: buffered_def)
      moreover have "s_current_date s' = Some (today env)" "s_current_thread s' = Some new"
        by (subst s', simp)+
      moreover have "s_state s' = update_logs (s_state s) True (Some new) (Some (today env))"
        using st by (subst s') simp
      ultimately show ?thesis using f sp p Some by (auto simp: update_logs_rotation)
    qed
  next
    assume a: "s_current_thread s = Some thread \<and> s_current_date s = Some d \<and> set (flush_dates ops) \<subseteq> {d}"
    with run_service_same_date[OF b, of thread d ops] obtain es s' where
      "run_service s ops = Inr (es, s')" "posts_to thread es"
       "s_current_thread s' = Some thread" "s_current_date s' = Some d"
      by blast
    then show "\<exists>es s'. run_service s ops = Inr (es, s') \<and> posts_to thread es \<and>
           set (send_targets es) \<subseteq> {thread} \<and>
           s_current_thread s' = Some thread \<and> s_current_date s' = Some d"
      using posts_to_targets by blast
  }
qed

theorem flush_rotation_witness:
  "buffered service_with_line = [''x''] \<and>
   (\<exists>posts x s'.
      flush_buffer service_with_line
          \<lparr>today = ''2026-01-02'', created = Some 2, send_outcome = (\<lambda>_. Sent)\<rparr>
        = Inr (CreateThread ''2026-01-02'' #
               SaveState (Stored \<lparr>dashboard_message_id = None, logs_enabled = True,
                                  current_thread_id = Some 2, current_date = Some ''2026-01-02'',
                                  last_action_time = None, last_action_user = None,
                                  last_action_type = None\<rparr>) # posts, x, s') \<and>
      posts_to 2 posts \<and> s_current_thread s' = Some 2 \<and>
      s_current_date s' = Some ''2026-01-02'' \<and> buffered s' = [])"
proof -
  let ?env = "\<lparr>today = ''2026-01-02'', created = Some 2, send_outcome = (\<lambda>_. Sent)\<rparr>"
  have b: "between_steps service_with_line"
    by (simp add: between_steps_def service_with_line_def service_on_day1_def
        LogSyncService_def list_new_def list_append_def)
  have buf: "buffered service_with_line = [''x'']"
    by (simp add: buffered_def service_with_line_def service_on_day1_def
        LogSyncService_def list_new_def list_append_def)
  have t: "s_current_thread service_with_line = Some 1"
    and d: "s_current_date service_with_line \<noteq> Some (today ?env)"
    and st: "fst (state (s_state service_with_line)) = BotState_default"
    by (simp_all add: service_with_line_def service_on_day1_def LogSyncService_def list_new_def
        state_def load_def)
  have ne: "buffered service_with_line \<noteq> []" using buf by simp
  note all = flush_rotation[of service_with_line ?env 1, THEN mp, OF b]
  note rot = all[THEN conjunct2, THEN conjunct2, THEN conjunct1, THEN mp, OF conjI[OF ne conjI[OF t d]]]
  from rot obtain es x s' where
    f: "flush_buffer service_with_line ?env = Inr (es, x, s')" and e: "buffered s' = []"
    and dd: "s_current_date s' = Some (today ?env)" and tt: "s_current_thread s' = created ?env"
    and new: "\<forall>new. created ?env = Some new \<longrightarrow>
              (\<exists>posts. es = CreateThread (today ?env) # SaveState (state_file (s_state s')) # posts \<and>
                       posts_to new posts) \<and>
              s_state s' =
                \<lparr>state_file = Stored ((fst (state (s_state service_with_line)))
                                \<lparr>logs_enabled := True, current_thread_id := Some new,
                                  current_date := Some (today ?env)\<rparr>),
                 m_state = Some ((fst (state (s_state service_with_line)))
                                \<lparr>logs_enabled := True, current_thread_id := Some new,
                                  current_date := Some (today ?env)\<rparr>)\<rparr>"
    by (elim exE conjE) (rule that, assumption+)
  have c2: "created ?env = Some 2" by simp
  from new[THEN spec, THEN mp, OF c2] obtain posts where
    es: "es = CreateThread (today ?env) # SaveState (state_file (s_state s')) # posts"
    and p: "posts_to 2 posts"
    and ss: "s_state s' =
                \<lparr>state_file = Stored ((fst (state (s_state service_with_line)))
                                \<lparr>logs_enabled := True, current_thread_id := Some 2,
                                  current_date := Some (today ?env)\<rparr>),
                 m_state = Some ((fst (state (s_state service_with_line)))
                                \<lparr>logs_enabled := True, current_thread_id := Some 2,
                                  current_date := Some (today ?env)\<rparr>)\<rparr>"
    by (elim exE conjE) (rule that, assumption+)
  have sf: "state_file (s_state s') = Stored (BotState_default
                                \<lparr>logs_enabled := True, current_thread_id := Some 2,
                                  current_date := Some ''2026-01-02''\<rparr>)"
    unfolding ss st by simp
  from f es sf p e dd tt buf show ?thesis
    by (simp add: BotState_default_def)
qed

text \<open>
  Two runs. On 2026-01-02 the thread creation fails, which leaves the service with no
  thread and the date 2026-01-02 recorded; the flush of 2026-01-03 then meets a non-empty
  buffer and a differing date, yet creates no thread: the whole run creates one thread,
  the failed one, and the line \<open>y\<close> is dropped. And the posts of a later flush go to the
  thread of that flush's own rotation: after a rotation to thread 2, the flush of the
  next day posts to thread 3.
\<close>

theorem flush_rotation_counterexample:
  "\<not> isl (run_service service_on_day1
        [Log ''x'', Flush \<lparr>today = ''2026-01-02'', created = None, send_outcome = (\<lambda>_. Sent)\<rparr>,
         Log ''y'', Flush \<lparr>today = ''2026-01-03'', created = Some 7, send_outcome = (\<lambda>_. Sent)\<rparr>]) \<and>
   fst (projr (run_service service_on_day1
        [Log ''x'', Flush \<lparr>today = ''2026-01-02'', created = None, send_outcome = (\<lambda>_. Sent)\<rparr>,
         Log ''y'', Flush \<lparr>today = ''2026-01-03'', created = Some 7, send_outcome = (\<lambda>_. Sent)\<rparr>]))
     = [CreateThread ''2026-01-02''] \<and>
   buffered (snd (projr (run_service service_on_day1
        [Log ''x'', Flush \<lparr>today = ''2026-01-02'', created = None, send_outcome = (\<lambda>_. Sent)\<rparr>,
         Log ''y'', Flush \<lparr>today = ''2026-01-03'', created = Some 7, send_outcome = (\<lambda>_. Sent)\<rparr>])))
     = [] \<and>
   send_targets (fst (projr (run_service service_on_day1
        [Log ''x'', Flush \<lparr>today = ''2026-01-02'', created = Some 2, send_outcome = (\<lambda>_. Sent)\<rparr>,
         Log ''y'', Flush \<lparr>today = ''2026-01-03'', created = Some 3, send_outcome = (\<lambda>_. Sent)\<rparr>])))
     = [2, 3]"
proof -
  let ?fail = "[Log ''x'', Flush \<lparr>today = ''2026-01-02'', created = None, send_outcome = (\<lambda>_. Sent)\<rparr>,
         Log ''y'', Flush \<lparr>today = ''2026-01-03'', created = Some 7, send_outcome = (\<lambda>_. Sent)\<rparr>]"
  let ?two = "[Log ''x'', Flush \<lparr>today = ''2026-01-02'', created = Some 2, send_outcome = (\<lambda>_. Sent)\<rparr>,
         Log ''y'', Flush \<lparr>today = ''2026-01-03'', created = Some 3, send_outcome = (\<lambda>_. Sent)\<rparr>]"
  have 1: "\<not> isl (run_service service_on_day1 ?fail)"
    by code_simp
  have 2: "fst (projr (run_service service_on_day1 ?fail)) = [CreateThread ''2026-01-02'']"
    by code_simp
  have 3: "buffered (snd (projr (run_service service_on_day1 ?fail))) = []"
    by code_simp
  have 4: "send_targets (fst (projr (run_service service_on_day1 ?two))) = [2, 3]"
    by code_simp
  from 1 2 3 4 show ?thesis by blast
qed

subsection \<open>The buffer\<close>

text \<open>
  C6. Appends and drains are single steps of the event loop (each is one locked block
  with no await inside), so every interleaving of the two tasks is a list of such steps.
  For every such list, run from a state between two steps: no step faults or has to wait
  for the lock; each drain of a non-empty buffer hands its flush a list of its own (the
  references are distinct and fresh); the drained lists, read at the end of the run, are
  exactly the batches the steps are due, that is, each drain that finds lines gets all
  the lines appended since the drain before it, in order, and nothing else, and what is
  buffered at the end is what was appended after the last drain; hence the drained
  lists, in order, followed by what is still buffered, are exactly the lines buffered at
  the start followed by the appended lines, in order. So every appended line is in
  exactly one drained list, the one of the first drain after its append, or still waits
  in the buffer for the next drain, also when it was appended after a drain, while that
  flush was sending; and no drained list is empty. The send phase of a flush works on
  its drained list and leaves the buffer and the lists as they are. Step by step: an
  append adds its line at the end of the buffer; a drain leaves the buffer empty, is a
  no-op on an empty buffer, and on a non-empty one returns a list other than the buffer
  that holds the lines that were buffered; and a flush of a non-empty buffer runs its
  send phase on exactly those lines.
\<close>

theorem buffer_drain_atomic:
  "between_steps s \<longrightarrow>
     (\<exists>rs s'. run_buffer s ops = Inr (rs, s') \<and> between_steps s' \<and>
        concat (map (cells (memory s')) rs) @ buffered s' = buffered s @ appended ops \<and>
        [] \<notin> set (map (cells (memory s')) rs) \<and>
        distinct rs \<and> s_log_buffer s' \<notin> set rs \<and>
        map (cells (memory s')) rs = batches (buffered s) ops \<and>
        buffered s' = still_pending (buffered s) ops) \<and>
     memory (snd (snd (send_phase s env logs))) = memory s \<and>
     s_log_buffer (snd (snd (send_phase s env logs))) = s_log_buffer s \<and>
     (\<exists>s1. add_to_buffer log_line s = Inr ((), s1) \<and> between_steps s1 \<and>
           buffered s1 = buffered s @ [log_line]) \<and>
     (\<exists>res s1. drain s = Inr (res, s1) \<and> between_steps s1 \<and> buffered s1 = [] \<and>
        (buffered s = [] \<longrightarrow> res = None \<and> s1 = s) \<and>
        (buffered s \<noteq> [] \<longrightarrow>
           (\<exists>drained. res = Some drained \<and> drained \<noteq> s_log_buffer s1 \<and>
                      cells (memory s1) drained = buffered s))) \<and>
     (buffered s \<noteq> [] \<longrightarrow>
        (\<exists>s1. flush_buffer s env = Inr (send_phase s1 env (buffered s)) \<and> buffered s1 = []))"
proof
  assume b: "between_steps s"
  from run_buffer_frame[OF b, of ops] obtain rs s' where
    r: "run_buffer s ops = Inr (rs, s')" "between_steps s'"
       "concat (map (cells (memory s')) rs) @ buffered s' = buffered s @ appended ops"
       "[] \<notin> set (map (cells (memory s')) rs)" "distinct rs"
    and same: "s_log_buffer s' = s_log_buffer s"
    and fresh: "\<forall>r \<in> set rs. next_ref (memory s) \<le> r"
    by blast
  have alloc: "s_log_buffer s < next_ref (memory s)" using b by (simp add: between_steps_def)
  with fresh same have notin: "s_log_buffer s' \<notin> set rs" by auto
  from run_buffer_batches[OF b r(1)]
  have due: "map (cells (memory s')) rs = batches (buffered s) ops"
    "buffered s' = still_pending (buffered s) ops"
    by simp_all
  have run: "\<exists>rs s'. run_buffer s ops = Inr (rs, s') \<and> between_steps s' \<and>
        concat (map (cells (memory s')) rs) @ buffered s' = buffered s @ appended ops \<and>
        [] \<notin> set (map (cells (memory s')) rs) \<and>
        distinct rs \<and> s_log_buffer s' \<notin> set rs \<and>
        map (cells (memory s')) rs = batches (buffered s) ops \<and>
        buffered s' = still_pending (buffered s) ops"
    using r notin due by blast
  have send: "memory (snd (snd (send_phase s env logs))) = memory s \<and>
     s_log_buffer (snd (snd (send_phase s env logs))) = s_log_buffer s"
    using send_phase_frame[of s env logs] by (cases "send_phase s env logs") simp
  have app: "\<exists>s1. add_to_buffer log_line s = Inr ((), s1) \<and> between_steps s1 \<and>
           buffered s1 = buffered s @ [log_line]"
    using add_to_buffer_between[OF b, of log_line] by blast
  have dr: "\<exists>res s1. drain s = Inr (res, s1) \<and> between_steps s1 \<and> buffered s1 = [] \<and>
        (buffered s = [] \<longrightarrow> res = None \<and> s1 = s) \<and>
        (buffered s \<noteq> [] \<longrightarrow>
           (\<exists>drained. res = Some drained \<and> drained \<noteq> s_log_buffer s1 \<and>
                      cells (memory s1) drained = buffered s))"
  proof -
    from drain_between[OF b] obtain res s1 where
      d: "drain s = Inr (res, s1)" and b1: "between_steps s1"
      and same1: "s_log_buffer s1 = s_log_buffer s"
      and emp: "buffered s = [] \<longrightarrow> res = None \<and> s1 = s"
      and non: "buffered s \<noteq> [] \<longrightarrow>
              res = Some (next_ref (memory s)) \<and> buffered s1 = [] \<and>
              cells (memory s1) (next_ref (memory s)) = buffered s"
      by blast
    have e1: "buffered s1 = []" using emp non by (cases "buffered s = []") simp_all
    have other: "next_ref (memory s) \<noteq> s_log_buffer s1" using alloc same1 by simp
    have "buffered s \<noteq> [] \<longrightarrow>
           (\<exists>drained. res = Some drained \<and> drained \<noteq> s_log_buffer s1 \<and>
                      cells (memory s1) drained = buffered s)"
      using non other by simp
    with d b1 e1 emp show ?thesis by blast
  qed
  have fl: "buffered s \<noteq> [] \<longrightarrow>
        (\<exists>s1. flush_buffer s env = Inr (send_phase s1 env (buffered s)) \<and> buffered s1 = [])"
    using flush_buffer_nonempty[OF b, of env] by blast
  from run send app dr fl
  show "(\<exists>rs s'. run_buffer s ops = Inr (rs, s') \<and> between_steps s' \<and>
        concat (map (cells (memory s')) rs) @ buffered s' = buffered s @ appended ops \<and>
        [] \<notin> set (map (cells (memory s')) rs) \<and>
        distinct rs \<and> s_log_buffer s' \<notin> set rs \<and>
        map (cells (memory s')) rs = batches (buffered s) ops \<and>
        buffered s' = still_pending (buffered s) ops) \<and>
     memory (snd (snd (send_phase s env logs))) = memory s \<and>
     s_log_buffer (snd (snd (send_phase s env logs))) = s_log_buffer s \<and>
     (\<exists>s1. add_to_buffer log_line s = Inr ((), s1) \<and> between_steps s1 \<and>
           buffered s1 = buffered s @ [log_line]) \<and>
     (\<exists>res s1. drain s = Inr (res, s1) \<and> between_steps s1 \<and> buffered s1 = [] \<and>
        (buffered s = [] \<longrightarrow> res = None \<and> s1 = s) \<and>
        (buffered s \<noteq> [] \<longrightarrow>
           (\<exists>drained. res = Some drained \<and> drained \<noteq> s_log_buffer s1 \<and>
                      cells (memory s1) drained = buffered s))) \<and>
     (buffered s \<noteq> [] \<longrightarrow>
        (\<exists>s1. flush_buffer s env = Inr (send_phase s1 env (buffered s)) \<and> buffered s1 = []))"
    by (intro conjI) (elim conjE, assumption)+
qed

theorem buffer_drain_atomic_witness:
  "(\<exists>rs s'. run_buffer service_on_day1
               [Append ''a'', Drain, Append ''b'', Append ''c'', Drain, Drain, Append ''d'']
             = Inr (rs, s') \<and>
            concat (map (cells (memory s')) rs) @ buffered s' = [''a'', ''b'', ''c'', ''d''] \<and>
            map (cells (memory s')) rs = [[''a''], [''b'', ''c'']] \<and>
            buffered s' = [''d'']) \<and>
   fst (projr (run_buffer service_on_day1
               [Append ''a'', Drain, Append ''b'', Append ''c'', Drain, Drain, Append ''d'']))
     = [1, 2] \<and>
   map (cells (memory (snd (projr (run_buffer service_on_day1
               [Append ''a'', Drain, Append ''b'', Append ''c'', Drain, Drain, Append ''d''])))))
       [1, 2]
     = [[''a''], [''b'', ''c'']] \<and>
   buffered (snd (projr (run_buffer service_on_day1
               [Append ''a'', Drain, Append ''b'', Append ''c'', Drain, Drain, Append ''d''])))
     = [''d'']"
proof -
  let ?ops = "[Append ''a'', Drain, Append ''b'', Append ''c'', Drain, Drain, Append ''d'']"
  have b: "between_steps service_on_day1"
    by (simp add: between_steps_def service_on_day1_def LogSyncService_def list_new_def)
  have e: "buffered service_on_day1 = []"
    by (simp add: buffered_def service_on_day1_def LogSyncService_def list_new_def)
  note th = buffer_drain_atomic[of service_on_day1 ?ops, THEN mp, OF b]
  from th[THEN conjunct1] obtain rs s' where
    r: "run_buffer service_on_day1 ?ops = Inr (rs, s')"
    and c: "concat (map (cells (memory s')) rs) @ buffered s'
              = buffered service_on_day1 @ appended ?ops"
    and m: "map (cells (memory s')) rs = batches (buffered service_on_day1) ?ops"
    and p: "buffered s' = still_pending (buffered service_on_day1) ?ops"
    by (elim exE conjE) (rule that, assumption+)
  have c': "concat (map (cells (memory s')) rs) @ buffered s' = [''a'', ''b'', ''c'', ''d'']"
    using c e by simp
  have m': "map (cells (memory s')) rs = [[''a''], [''b'', ''c'']]"
    using m e by simp
  have p': "buffered s' = [''d'']"
    using p e by simp
  from r c' m' p' have 1: "\<exists>rs s'. run_buffer service_on_day1 ?ops = Inr (rs, s') \<and>
            concat (map (cells (memory s')) rs) @ buffered s' = [''a'', ''b'', ''c'', ''d''] \<and>
            map (cells (memory s')) rs = [[''a''], [''b'', ''c'']] \<and>
            buffered s' = [''d'']"
    by (intro exI conjI)
  have 2: "fst (projr (run_buffer service_on_day1 ?ops)) = [1, 2]"
    by code_simp
  have 3: "map (cells (memory (snd (projr (run_buffer service_on_day1 ?ops))))) [1, 2]
     = [[''a''], [''b'', ''c'']]"
    by code_simp
  have 4: "buffered (snd (projr (run_buffer service_on_day1 ?ops))) = [''d'']"
    by code_simp
  from 1 2 3 4 show ?thesis by (intro conjI)
qed

subsection \<open>Stopping\<close>

lemma flush_buffer_without_rotation:
  assumes "between_steps s"
    and "buffered s = [] \<or> s_current_thread s = None \<or> s_current_date s = Some (today env)"
  shows "\<exists>es x s'. flush_buffer s env = Inr (es, x, s') \<and> s_state s' = s_state s"
proof (cases "buffered s = []")
  case True
  with assms(1) show ?thesis by (simp add: flush_buffer_empty)
next
  case False
  show ?thesis
  proof (cases "s_current_thread s")
    case None
    with flush_buffer_no_thread[OF assms(1) False, of env] show ?thesis by blast
  next
    case (Some thread)
    with assms(2) False have "s_current_date s = Some (today env)" by simp
    with flush_buffer_keeps_thread[OF assms(1) Some, of env] show ?thesis by blast
  qed
qed

lemma state_loaded: "fst (state \<lparr>state_file = f, m_state = Some st\<rparr>) = st"
  by (simp add: state_def)

lemma stop_after_flush:
  "flush_buffer (s\<lparr>s_running := False\<rparr>) env = Inr (es, x, s1) \<Longrightarrow>
     stop s env =
       (if x = Returned
        then Inr (es @ [SaveState (Stored ((fst (state (s_state s1)))\<lparr>logs_enabled := False\<rparr>))],
                  Returned,
                  s1\<lparr>s_state := update_logs (s_state s1) False None None\<rparr>)
        else Inr (es, Raised, s1))"
  by (cases x) (simp_all add: stop_def Let_def update_logs_only_enabled)

text \<open>
  C10. \<open>update_logs\<close> with \<open>thread_id\<close> and \<open>date\<close> omitted sets \<open>logs_enabled\<close> and
  nothing else: the state in memory and the state written to the file are the state the
  manager had, with \<open>logs_enabled\<close> replaced; the thread id, the date, the dashboard
  message id and the three last-action fields are unchanged. \<open>stop\<close> ends with that call
  (with \<open>False\<close>) when its last flush returns, so the state after \<open>stop\<close> is the state
  the flush left with \<open>logs_enabled\<close> cleared; and when that flush does not rotate
  (nothing buffered, no thread set, or the date still the recorded one), \<open>stop\<close> keeps
  the persisted thread id and date.
\<close>

theorem update_logs_only_logs_enabled:
  "update_logs m enabled None None =
     \<lparr>state_file = Stored ((fst (state m))\<lparr>logs_enabled := enabled\<rparr>),
      m_state = Some ((fst (state m))\<lparr>logs_enabled := enabled\<rparr>)\<rparr> \<and>
   logs_enabled (fst (state (update_logs m enabled None None))) = enabled \<and>
   current_thread_id (fst (state (update_logs m enabled None None))) = current_thread_id (fst (state m)) \<and>
   current_date (fst (state (update_logs m enabled None None))) = current_date (fst (state m)) \<and>
   dashboard_message_id (fst (state (update_logs m enabled None None)))
     = dashboard_message_id (fst (state m)) \<and>
   last_action_time (fst (state (update_logs m enabled None None))) = last_action_time (fst (state m)) \<and>
   last_action_user (fst (state (update_logs m enabled None None))) = last_action_user (fst (state m)) \<and>
   last_action_type (fst (state (update_logs m enabled None None))) = last_action_type (fst (state m)) \<and>
   (flush_buffer (s\<lparr>s_running := False\<rparr>) env = Inr (es, Returned, s1) \<longrightarrow>
      stop s env =
        Inr (es @ [SaveState (Stored ((fst (state (s_state s1)))\<lparr>logs_enabled := False\<rparr>))],
             Returned, s1\<lparr>s_state := update_logs (s_state s1) False None None\<rparr>)) \<and>
   (between_steps s \<and>
    (buffered s = [] \<or> s_current_thread s = None \<or> s_current_date s = Some (today env)) \<longrightarrow>
      (\<exists>es x s'. stop s env = Inr (es, x, s') \<and>
         current_thread_id (fst (state (s_state s'))) = current_thread_id (fst (state (s_state s))) \<and>
         current_date (fst (state (s_state s'))) = current_date (fst (state (s_state s))) \<and>
         (x = Returned \<longrightarrow>
            fst (state (s_state s')) = (fst (state (s_state s)))\<lparr>logs_enabled := False\<rparr> \<and>
            state_file (s_state s') = Stored ((fst (state (s_state s)))\<lparr>logs_enabled := False\<rparr>))))"
proof -
  have 1: "update_logs m enabled None None =
     \<lparr>state_file = Stored ((fst (state m))\<lparr>logs_enabled := enabled\<rparr>),
      m_state = Some ((fst (state m))\<lparr>logs_enabled := enabled\<rparr>)\<rparr>"
    by (rule update_logs_only_enabled)
  have 2: "fst (state (update_logs m enabled None None)) = (fst (state m))\<lparr>logs_enabled := enabled\<rparr>"
    by (rule state_after_update_logs)
  have 3: "flush_buffer (s\<lparr>s_running := False\<rparr>) env = Inr (es, Returned, s1) \<longrightarrow>
      stop s env =
        Inr (es @ [SaveState (Stored ((fst (state (s_state s1)))\<lparr>logs_enabled := False\<rparr>))],
             Returned, s1\<lparr>s_state := update_logs (s_state s1) False None None\<rparr>)"
    by (simp add: stop_after_flush)
  have 4: "between_steps s \<and>
    (buffered s = [] \<or> s_current_thread s = None \<or> s_current_date s = Some (today env)) \<longrightarrow>
      (\<exists>es x s'. stop s env = Inr (es, x, s') \<and>
         current_thread_id (fst (state (s_state s'))) = current_thread_id (fst (state (s_state s))) \<and>
         current_date (fst (state (s_state s'))) = current_date (fst (state (s_state s))) \<and>
         (x = Returned \<longrightarrow>
            fst (state (s_state s')) = (fst (state (s_state s)))\<lparr>logs_enabled := False\<rparr> \<and>
            state_file (s_state s') = Stored ((fst (state (s_state s)))\<lparr>logs_enabled := False\<rparr>)))"
  proof
    assume a: "between_steps s \<and>
      (buffered s = [] \<or> s_current_thread s = None \<or> s_current_date s = Some (today env))"
    let ?s = "s\<lparr>s_running := False\<rparr>"
    have b: "between_steps ?s" using a by (simp add: between_steps_def)
    have c: "buffered ?s = [] \<or> s_current_thread ?s = None \<or> s_current_date ?s = Some (today env)"
      using a by (simp add: buffered_def)
    from flush_buffer_without_rotation[OF b c] obtain es x s1 where
      f: "flush_buffer ?s env = Inr (es, x, s1)" and st: "s_state s1 = s_state ?s"
      by blast
    show "\<exists>es x s'. stop s env = Inr (es, x, s') \<and>
         current_thread_id (fst (state (s_state s'))) = current_thread_id (fst (state (s_state s))) \<and>
         current_date (fst (state (s_state s'))) = current_date (fst (state (s_state s))) \<and>
         (x = Returned \<longrightarrow>
            fst (state (s_state s')) = (fst (state (s_state s)))\<lparr>logs_enabled := False\<rparr> \<and>
            state_file (s_state s') = Stored ((fst (state (s_state s)))\<lparr>logs_enabled := False\<rparr>))"
    proof (cases x)
      case Returned
      with stop_after_flush[OF f] st show ?thesis
        by (simp add: update_logs_only_enabled state_loaded)
    next
      case Raised
      with stop_after_flush[OF f] st show ?thesis by simp
    qed
  qed
  from 1 2 3 4 show ?thesis by simp
qed

theorem update_logs_only_logs_enabled_witness:
  "update_logs
      \<lparr>state_file = Stored \<lparr>dashboard_message_id = Some 42, logs_enabled = True,
                             current_thread_id = Some 1, current_date = Some ''2026-01-01'',
                             last_action_time = Some ''2026-01-01T09:00:00'',
                             last_action_user = Some ''alice'', last_action_type = Some ''start''\<rparr>,
       m_state = Some \<lparr>dashboard_message_id = Some 42, logs_enabled = True,
                       current_thread_id = Some 1, current_date = Some ''2026-01-01'',
                       last_action_time = Some ''2026-01-01T09:00:00'',
                       last_action_user = Some ''alice'', last_action_type = Some ''start''\<rparr>\<rparr>
      False None None
     = \<lparr>state_file = Stored \<lparr>dashboard_message_id = Some 42, logs_enabled = False,
                             current_thread_id = Some 1, current_date = Some ''2026-01-01'',
                             last_action_time = Some ''2026-01-01T09:00:00'',
                             last_action_user = Some ''alice'', last_action_type = Some ''start''\<rparr>,
        m_state = Some \<lparr>dashboard_message_id = Some 42, logs_enabled = False,
                       current_thread_id = Some 1, current_date = Some ''2026-01-01'',
                       last_action_time = Some ''2026-01-01T09:00:00'',
                       last_action_user = Some ''alice'', last_action_type = Some ''start''\<rparr>\<rparr> \<and>
   (\<exists>es x s'.
      stop (service_on_day1
              \<lparr>s_state :=
                 \<lparr>state_file = Stored \<lparr>dashboard_message_id = Some 42, logs_enabled = True,
                       current_thread_id = Some 1, current_date = Some ''2026-01-01'',
                       last_action_time = Some ''2026-01-01T09:00:00'',
                       last_action_user = Some ''alice'', last_action_type = Some ''start''\<rparr>,
                  m_state = Some \<lparr>dashboard_message_id = Some 42, logs_enabled = True,
                       current_thread_id = Some 1, current_date = Some ''2026-01-01'',
                       last_action_time = Some ''2026-01-01T09:00:00'',
                       last_action_user = Some ''alice'', last_action_type = Some ''start''\<rparr>\<rparr>\<rparr>)
           \<lparr>today = ''2026-01-01'', created = None, send_outcome = (\<lambda>_. Sent)\<rparr>
        = Inr (es, x, s') \<and>
      current_thread_id (fst (state (s_state s'))) = Some 1 \<and>
      current_date (fst (state (s_state s'))) = Some ''2026-01-01'')"
proof -
  let ?st = "\<lparr>dashboard_message_id = Some 42, logs_enabled = True,
                             current_thread_id = Some 1, current_date = Some ''2026-01-01'',
                             last_action_time = Some ''2026-01-01T09:00:00'',
                             last_action_user = Some ''alice'', last_action_type = Some ''start''\<rparr>"
  let ?m = "\<lparr>state_file = Stored ?st, m_state = Some ?st\<rparr>"
  let ?env = "\<lparr>today = ''2026-01-01'', created = None, send_outcome = (\<lambda>_. Sent)\<rparr>"
  let ?s = "service_on_day1\<lparr>s_state := ?m\<rparr>"
  note th = update_logs_only_logs_enabled[of ?m False ?s ?env]
  have 1: "update_logs ?m False None None =
     \<lparr>state_file = Stored ((fst (state ?m))\<lparr>logs_enabled := False\<rparr>),
      m_state = Some ((fst (state ?m))\<lparr>logs_enabled := False\<rparr>)\<rparr>"
    by (rule th[THEN conjunct1])
  have st: "fst (state ?m) = ?st" by (simp add: state_def)
  have b: "between_steps ?s"
    by (simp add: between_steps_def service_on_day1_def LogSyncService_def list_new_def)
  have e: "buffered ?s = []"
    by (simp add: buffered_def service_on_day1_def LogSyncService_def list_new_def)
  then have pre: "between_steps ?s \<and>
    (buffered ?s = [] \<or> s_current_thread ?s = None \<or> s_current_date ?s = Some (today ?env))"
    using b by simp
  have sst: "fst (state (s_state ?s)) = ?st" by (simp add: state_def)
  note last = th[THEN conjunct2, THEN conjunct2, THEN conjunct2, THEN conjunct2, THEN conjunct2,
                 THEN conjunct2, THEN conjunct2, THEN conjunct2, THEN conjunct2, THEN mp, OF pre]
  from last have "\<exists>es x s'.
      stop ?s ?env = Inr (es, x, s') \<and>
      current_thread_id (fst (state (s_state s'))) = current_thread_id (fst (state (s_state ?s))) \<and>
      current_date (fst (state (s_state s'))) = current_date (fst (state (s_state ?s)))"
    by (elim exE conjE) (intro exI conjI, assumption+)
  then have 2: "\<exists>es x s'.
      stop ?s ?env = Inr (es, x, s') \<and>
      current_thread_id (fst (state (s_state s'))) = Some 1 \<and>
      current_date (fst (state (s_state s'))) = Some ''2026-01-01''"
    unfolding sst by simp
  from 1 st 2 show ?thesis by simp
qed

end
